theory Spec2Isabelle
  imports Main
begin

section \<open>White space\<close>

text \<open>
  \<open>String.prototype.trim\<close> on the characters of \<^typ>\<open>char\<close>, read as the code units
  below 256: tab, line feed, vertical tab, form feed, carriage return, space and the
  no-break space are white space.
\<close>

definition is_space :: "char \<Rightarrow> bool" where
  "is_space c \<longleftrightarrow>
     c \<in> {CHR 0x09, CHR 0x0A, CHR 0x0B, CHR 0x0C, CHR 0x0D, CHR 0x20, CHR 0xA0}"

definition trim :: "string \<Rightarrow> string" where
  "trim text = rev (dropWhile is_space (rev (dropWhile is_space text)))"

section \<open>Sentence Buffer\<close>

text \<open>
  Modelled from the spec: the function \<open>bufferText\<close> of \<open>./utils\<close>, which
  \<open>index.ts\<close> imports and which is not among the source files.  Section 4.1 of the
  specification describes it: each fragment is appended to an internal residual buffer;
  then a leading substring that ends at a sentence boundary (terminal punctuation, or a
  hard length cap) is extracted and emitted, repeatedly, and the remainder stays
  buffered; when the stream completes, a non-empty residual is flushed as a last unit.
  Section 8 adds that the buffer is tolerant of leading and trailing white space, and
  its scenario emits \<open>"How are you?"\<close> for the buffered text \<open>" How are you?"\<close>: a
  unit is emitted without the white space at its two ends.

  The specification fixes neither the set of terminal punctuation characters nor the
  value of the cap, so both are parameters: \<open>terminal\<close> decides whether a character
  ends a sentence, and \<open>cap\<close> is the length cap (\<open>0\<close> switches the cap off).  What
  is extracted and what stays buffered is as section 4.1 says; only the emitted unit is
  trimmed.
\<close>

fun first_terminal :: "(char \<Rightarrow> bool) \<Rightarrow> string \<Rightarrow> nat option" where
  "first_terminal terminal [] = None"
| "first_terminal terminal (c # cs) =
     (if terminal c then Some 1 else map_option Suc (first_terminal terminal cs))"

definition boundary :: "(char \<Rightarrow> bool) \<Rightarrow> nat \<Rightarrow> string \<Rightarrow> nat option" where
  "boundary terminal cap buf =
     (case first_terminal terminal buf of
        Some n \<Rightarrow> Some (if 0 < cap \<and> cap < n then cap else n)
      | None \<Rightarrow> if 0 < cap \<and> cap \<le> length buf then Some cap else None)"

function extract_units :: "(char \<Rightarrow> bool) \<Rightarrow> nat \<Rightarrow> string \<Rightarrow> string list \<times> string" where
  "extract_units terminal cap buf =
     (case boundary terminal cap buf of
        None \<Rightarrow> ([], buf)
      | Some n \<Rightarrow>
          (case extract_units terminal cap (drop n buf) of
             (units, rest) \<Rightarrow> (trim (take n buf) # units, rest)))"
  by pat_completeness auto
termination
proof (relation "measure (\<lambda>(terminal, cap, buf). length buf)")
  show "wf (measure (\<lambda>(terminal, cap, buf). length buf))"
    by simp
next
  fix terminal :: "char \<Rightarrow> bool" and cap :: nat and buf :: string and n :: nat
  assume b: "boundary terminal cap buf = Some n"
  have ft: "first_terminal terminal cs = Some k \<Longrightarrow> 0 < k \<and> k \<le> length cs" for cs k
    by (induction cs arbitrary: k) (auto split: if_splits)
  from b have "0 < n \<and> n \<le> length buf"
    unfolding boundary_def by (auto split: option.splits if_splits dest: ft)
  then show "((terminal, cap, drop n buf), (terminal, cap, buf))
      \<in> measure (\<lambda>(terminal, cap, buf). length buf)"
    by auto
qed

definition accumulate :: "(char \<Rightarrow> bool) \<Rightarrow> nat \<Rightarrow> string \<Rightarrow> string \<Rightarrow> string list \<times> string" where
  "accumulate terminal cap fragment residual = extract_units terminal cap (residual @ fragment)"

fun feed :: "(char \<Rightarrow> bool) \<Rightarrow> nat \<Rightarrow> string \<Rightarrow> string list \<Rightarrow> string list \<times> string" where
  "feed terminal cap residual [] = ([], residual)"
| "feed terminal cap residual (fragment # fragments) =
     (case accumulate terminal cap fragment residual of
        (units, residual') \<Rightarrow>
          (case feed terminal cap residual' fragments of
             (later, final) \<Rightarrow> (units @ later, final)))"

definition bufferText :: "(char \<Rightarrow> bool) \<Rightarrow> nat \<Rightarrow> string list \<Rightarrow> string list" where
  "bufferText terminal cap fragments =
     (case feed terminal cap [] fragments of
        (units, residual) \<Rightarrow> units @ (if residual = [] then [] else [trim residual]))"

section \<open>Data of a session\<close>

text \<open>
  A turn of the conversation is the object \<open>{role, content}\<close> that \<open>fetch\<close> pushes
  on \<open>msgHistory\<close>.  The messages handed to \<open>ws.send\<close> have three shapes:
  \<open>{type: 'text', text, interim}\<close> for a transcript, \<open>{type: 'text', text}\<close> for the
  text-only fallback, and \<open>{type: 'audio', text, audio}\<close> for a synthesized sentence.
\<close>

datatype role = User | Assistant

record turn =
  role :: role
  content :: string

datatype outbound =
    TranscriptText string bool
  | PlainText string
  | AudioMessage string string

type_synonym bytes = "nat list"

type_synonym handle = nat

section \<open>Synthesis and the queue of synthesis jobs\<close>

text \<open>
  \<open>DeepgramTTS.synthesize\<close> (\<open>deepgram-tts.ts\<close>) runs its REST branch (\<open>useRestAPI\<close>
  is \<open>true\<close> and is never assigned again).  The request either throws, or its result is processed into
  \<open>audioBase64\<close>, which is \<open>null\<close> or a string.  A request that never settles is not
  an outcome: it is the absence of the event \<open>Settled\<close> below.
\<close>

datatype speak_outcome = Rejected string | Processed "string option"

text \<open>
  The job that \<open>fetch\<close> (\<open>index.ts\<close>, the same in both of its variants) adds to the
  queue replaces the two callbacks of the synthesizer
  by closures that store into the locals \<open>audioResult\<close> and \<open>errorResult\<close>;
  \<open>synthesize\<close> invokes the audio callback only with a non-empty \<open>audioBase64\<close>.
\<close>

record capture =
  audioResult :: "string option"
  errorResult :: "string option"

text \<open>JavaScript truthiness of a value that is \<open>null\<close> or a string.\<close>

definition truthy :: "string option \<Rightarrow> bool" where
  "truthy v = (case v of None \<Rightarrow> False | Some text \<Rightarrow> text \<noteq> [])"

definition synthesize :: "speak_outcome \<Rightarrow> capture \<Rightarrow> capture" where
  "synthesize outcome cap =
     (case outcome of
        Processed audioBase64 \<Rightarrow>
          (case audioBase64 of
             Some audio \<Rightarrow> if audio \<noteq> [] then cap\<lparr>audioResult := Some audio\<rparr> else cap
           | None \<Rightarrow> cap)
      | Rejected err \<Rightarrow> cap\<lparr>errorResult := Some err\<rparr>)"

text \<open>
  The condition of the loop \<open>while (!audioResult && !errorResult && (Date.now() -
  startTime) < timeout)\<close>, with \<open>timeout = 10000\<close>; \<open>elapsed\<close> is
  \<open>Date.now() - startTime\<close> in milliseconds.
\<close>

definition waiting :: "capture \<Rightarrow> nat \<Rightarrow> bool" where
  "waiting cap elapsed \<longleftrightarrow>
     \<not> truthy (audioResult cap) \<and> errorResult cap = None \<and> elapsed < 10000"

text \<open>
  What the job sends once the loop is left: \<open>throw errorResult\<close> and the timeout error
  both end in the \<open>catch\<close> block, which sends the text-only fallback.
\<close>

definition fallback :: "string \<Rightarrow> outbound" where
  "fallback sentence = PlainText (''[TTS Error] '' @ sentence)"

definition job_message :: "string \<Rightarrow> capture \<Rightarrow> outbound" where
  "job_message sentence cap =
     (if errorResult cap \<noteq> None then fallback sentence
      else
        (case audioResult cap of
           None \<Rightarrow> fallback sentence
         | Some audio \<Rightarrow> if audio = [] then fallback sentence else AudioMessage sentence audio))"

text \<open>
  The queue is \<open>new PQueue({ concurrency: 1 })\<close>: at most one job runs, the others wait
  in the order of their \<open>add\<close>.  A job is identified by its sentence.  The running job
  is either inside \<open>await this.deepgramTTS.synthesize(sentence)\<close>, or in the polling
  loop with its captured results and the milliseconds elapsed.
\<close>

datatype phase = Synthesizing | Polling capture nat

record pqueue =
  pending :: "string list"
  running :: "(string \<times> phase) option"

datatype queue_event =
    Add string
  | Settled speak_outcome
  | Tick

definition start_next :: "pqueue \<Rightarrow> pqueue" where
  "start_next q =
     (case pending q of
        [] \<Rightarrow> q\<lparr>running := None\<rparr>
      | sentence # rest \<Rightarrow> q\<lparr>pending := rest, running := Some (sentence, Synthesizing)\<rparr>)"

text \<open>
  One evaluation of the loop condition: the job sleeps on (\<open>setTimeout(resolve, 100)\<close>),
  or it leaves the loop, sends its one message and the queue starts the next job.
\<close>

definition poll :: "string \<Rightarrow> capture \<Rightarrow> nat \<Rightarrow> pqueue \<Rightarrow> pqueue \<times> outbound list" where
  "poll sentence cap elapsed q =
     (if waiting cap elapsed then (q\<lparr>running := Some (sentence, Polling cap elapsed)\<rparr>, [])
      else (start_next q, [job_message sentence cap]))"

fun queue_step :: "queue_event \<Rightarrow> pqueue \<Rightarrow> pqueue \<times> outbound list" where
  "queue_step (Add sentence) q =
     (let q' = q\<lparr>pending := pending q @ [sentence]\<rparr>
      in (if running q' = None then start_next q' else q', []))"
| "queue_step (Settled outcome) q =
     (case running q of
        Some (sentence, Synthesizing) \<Rightarrow>
          poll sentence (synthesize outcome \<lparr>audioResult = None, errorResult = None\<rparr>) 0 q
      | _ \<Rightarrow> (q, []))"
| "queue_step Tick q =
     (case running q of
        Some (sentence, Polling cap elapsed) \<Rightarrow> poll sentence cap (elapsed + 100) q
      | _ \<Rightarrow> (q, []))"

fun queue_run :: "queue_event list \<Rightarrow> pqueue \<Rightarrow> outbound list \<Rightarrow> pqueue \<times> outbound list" where
  "queue_run [] q sent = (q, sent)"
| "queue_run (e # es) q sent =
     (case queue_step e q of (q', messages) \<Rightarrow> queue_run es q' (sent @ messages))"

definition idle :: pqueue where
  "idle = \<lparr>pending = [], running = None\<rparr>"

text \<open>The sentences submitted by a trace, and the jobs a queue still holds, in order.\<close>

fun submitted :: "queue_event list \<Rightarrow> string list" where
  "submitted [] = []"
| "submitted (Add sentence # es) = sentence # submitted es"
| "submitted (e # es) = submitted es"

definition held :: "pqueue \<Rightarrow> string list" where
  "held q = (case running q of None \<Rightarrow> [] | Some (sentence, p) \<Rightarrow> [sentence]) @ pending q"

text \<open>A message is the outbound message of a sentence: its audio, or its fallback.\<close>

fun message_for :: "string \<Rightarrow> outbound \<Rightarrow> bool" where
  "message_for sentence (AudioMessage text audio) \<longleftrightarrow> text = sentence \<and> audio \<noteq> []"
| "message_for sentence (PlainText text) \<longleftrightarrow> text = ''[TTS Error] '' @ sentence"
| "message_for sentence (TranscriptText text interim) \<longleftrightarrow> False"

section \<open>The transcription link\<close>

text \<open>
  Class \<open>DeepgramSTT\<close> of \<open>deepgram-tts.ts\<close>.  The payload of a \<open>Transcript\<close>
  event, as far as the handler reads it:
  \<open>data?.channel?.alternatives?.[0]?.transcript\<close> and \<open>data?.is_final\<close>.  Every
  level may be missing.
\<close>

record dg_alternative =
  transcript :: "string option"

record dg_channel =
  alternatives :: "dg_alternative list option"

record dg_result =
  channel :: "dg_channel option"
  is_final :: "bool option"

definition extract_transcript :: "dg_result option \<Rightarrow> string" where
  "extract_transcript d =
     (case d of
        None \<Rightarrow> []
      | Some r \<Rightarrow>
          (case channel r of
             None \<Rightarrow> []
           | Some c \<Rightarrow>
               (case alternatives c of
                  None \<Rightarrow> []
                | Some [] \<Rightarrow> []
                | Some (a # rest) \<Rightarrow> (case transcript a of None \<Rightarrow> [] | Some t \<Rightarrow> t))))"

definition extract_final :: "dg_result option \<Rightarrow> bool" where
  "extract_final d =
     (case d of None \<Rightarrow> False | Some r \<Rightarrow> (case is_final r of None \<Rightarrow> False | Some b \<Rightarrow> b))"

text \<open>A well-formed payload: one alternative with the given transcript, and \<open>is_final\<close>.\<close>

definition heard :: "string \<Rightarrow> bool \<Rightarrow> dg_result option" where
  "heard text final =
     Some \<lparr>channel = Some \<lparr>alternatives = Some [\<lparr>transcript = Some text\<rparr>]\<rparr>,
           is_final = Some final\<rparr>"

text \<open>
  The fields of \<open>DeepgramSTT\<close>, and what the link acts on: \<open>fresh\<close> is the connection
  object the next \<open>client.listen.live\<close> returns (so it counts the connection attempts
  made so far); \<open>promises\<close> are the calls of \<open>connect\<close> whose \<open>connectionPromise\<close> is
  not settled (\<open>resolved\<close> is still \<open>false\<close>), each with what continues after it;
  \<open>timers\<close> are the delays of the reconnect timers set and not yet fired; \<open>wire\<close>
  and \<open>finished\<close> record the calls of \<open>connection.send\<close> and \<open>connection.finish\<close>;
  \<open>faulty\<close> are the connections whose \<open>send\<close> and \<open>finish\<close> throw.
  The callbacks are values of any type: the link only stores and invokes them.
\<close>

datatype origin = Caller | Timer | Resend bytes

record ('t, 'e) stt =
  connection :: "handle option"
  isConnected :: bool
  isReconnecting :: bool
  onTranscriptCallback :: "'t option"
  onErrorCallback :: "'e option"
  fresh :: handle
  promises :: "(handle \<times> origin) list"
  timers :: "nat list"
  wire :: "(handle \<times> bytes) list"
  finished :: "handle list"
  faulty :: "handle list"

datatype ('t, 'e) call = TranscriptCall 't string bool | ErrorCall 'e string

fun is_error_call :: "('t, 'e) call \<Rightarrow> bool" where
  "is_error_call (ErrorCall onError message) \<longleftrightarrow> True"
| "is_error_call (TranscriptCall onTranscript text isFinal) \<longleftrightarrow> False"

datatype stt_event =
    Open handle
  | Failed handle string
  | TimedOut handle
  | Closed handle
  | TimerFired
  | Result handle "dg_result option"

definition new_stt :: "('t, 'e) stt" where
  "new_stt =
     \<lparr>connection = None, isConnected = False, isReconnecting = False,
      onTranscriptCallback = None, onErrorCallback = None, fresh = 0, promises = [],
      timers = [], wire = [], finished = [], faulty = []\<rparr>"

text \<open>
  Every unsettled promise belongs to a connection that has been created.  The new link
  has this property and every method and handler keeps it (\<open>stt_apply_well_formed\<close>).
\<close>

definition well_formed :: "('t, 'e) stt \<Rightarrow> bool" where
  "well_formed l \<longleftrightarrow> list_all (\<lambda>p. fst p < fresh l) (promises l)"

text \<open>
  The error callback is invoked with an \<open>Error\<close>; the model keeps its message.  Where
  the message is the text of an exception thrown by the connection, the model writes a
  fixed text (\<open>send failed\<close>, \<open>finish failed\<close>).

  The synchronous part of \<open>connect\<close>: it stores the callbacks, creates the connection and
  registers the handlers; the promise settles with a later event.  (\<open>client.listen.live\<close>
  is taken to return a connection.)
\<close>

definition connect :: "'t \<Rightarrow> 'e option \<Rightarrow> origin \<Rightarrow> ('t, 'e) stt \<Rightarrow> ('t, 'e) stt" where
  "connect onTranscript onError origin l =
     l\<lparr>onTranscriptCallback := Some onTranscript, onErrorCallback := onError,
       connection := Some (fresh l), fresh := Suc (fresh l),
       promises := promises l @ [(fresh l, origin)]\<rparr>"

definition report :: "string \<Rightarrow> ('t, 'e) stt \<Rightarrow> ('t, 'e) call list" where
  "report message l =
     (case onErrorCallback l of None \<Rightarrow> [] | Some onError \<Rightarrow> [ErrorCall onError message])"

definition sendAudio :: "bytes \<Rightarrow> ('t, 'e) stt \<Rightarrow> ('t, 'e) stt \<times> ('t, 'e) call list" where
  "sendAudio audioBuffer l =
     (if \<not> isConnected l \<or> connection l = None then
        (case onTranscriptCallback l of
           Some onTranscript \<Rightarrow>
             if \<not> isReconnecting l
             then (connect onTranscript (onErrorCallback l) (Resend audioBuffer)
                     (l\<lparr>isReconnecting := True\<rparr>), [])
             else (l, [])
         | None \<Rightarrow> (l, []))
      else
        (case connection l of
           Some h \<Rightarrow>
             if h \<in> set (faulty l) then (l, report ''send failed'' l)
             else (l\<lparr>wire := wire l @ [(h, audioBuffer)]\<rparr>, [])
         | None \<Rightarrow> (l, [])))"

text \<open>
  \<open>disconnect\<close>, with the exception of \<open>connection.finish\<close> as a value: \<open>Inl\<close> is a
  throw.  The \<open>catch\<close> block only logs.
\<close>

definition finish_connection :: "handle \<Rightarrow> ('t, 'e) stt \<Rightarrow> string + ('t, 'e) stt" where
  "finish_connection h l =
     (if h \<in> set (faulty l) then Inl ''finish failed''
      else Inr (l\<lparr>finished := finished l @ [h]\<rparr>))"

definition disconnect :: "('t, 'e) stt \<Rightarrow> string + ('t, 'e) stt" where
  "disconnect l =
     (case connection l of
        Some h \<Rightarrow>
          (case finish_connection h l of
             Inl err \<Rightarrow> Inr (l\<lparr>connection := None, isConnected := False\<rparr>)
           | Inr l' \<Rightarrow> Inr (l'\<lparr>connection := None, isConnected := False\<rparr>))
      | None \<Rightarrow> Inr (l\<lparr>isConnected := False\<rparr>))"

text \<open>
  What runs when \<open>connect\<close> returns: only the call made by \<open>sendAudio\<close> has a
  continuation (\<open>.then((connected) => ...)\<close>).
\<close>

definition connect_returned ::
  "bool \<Rightarrow> origin \<Rightarrow> ('t, 'e) stt \<Rightarrow> ('t, 'e) stt \<times> ('t, 'e) call list" where
  "connect_returned connected origin l =
     (case origin of
        Resend audioBuffer \<Rightarrow>
          (let l' = l\<lparr>isReconnecting := False\<rparr>
           in if connected then sendAudio audioBuffer l' else (l', []))
      | _ \<Rightarrow> (l, []))"

definition settle :: "handle \<Rightarrow> ('t, 'e) stt \<Rightarrow> ('t, 'e) stt" where
  "settle h l = l\<lparr>promises := filter (\<lambda>p. fst p \<noteq> h) (promises l)\<rparr>"

text \<open>
  The handlers that \<open>connect\<close> registers on a connection, and the two timers.  An
  \<open>Error\<close> event runs two handlers: the one inside the promise rejects it if it is not
  settled (the \<open>catch\<close> block of \<open>connect\<close> then invokes the error callback and
  \<open>connect\<close> returns \<open>false\<close>), and the later one invokes the error callback directly.
\<close>

fun stt_step :: "stt_event \<Rightarrow> ('t, 'e) stt \<Rightarrow> ('t, 'e) stt \<times> ('t, 'e) call list" where
  "stt_step (Open h) l =
     (case map_of (promises l) h of
        None \<Rightarrow> (l, [])
      | Some origin \<Rightarrow> connect_returned True origin ((settle h l)\<lparr>isConnected := True\<rparr>))"
| "stt_step (Failed h message) l =
     (let text = ''Deepgram STT error: '' @ message
      in if h < fresh l then
           (case map_of (promises l) h of
              None \<Rightarrow> (l, report text l)
            | Some origin \<Rightarrow>
                (case connect_returned False origin (settle h l) of
                   (l', calls) \<Rightarrow> (l', report text l @ report text l @ calls)))
         else (l, []))"
| "stt_step (TimedOut h) l =
     (case map_of (promises l) h of
        None \<Rightarrow> (l, [])
      | Some origin \<Rightarrow>
          (case connect_returned False origin (settle h l) of
             (l', calls) \<Rightarrow> (l', report ''Connection timeout'' l @ calls)))"
| "stt_step (Closed h) l =
     (if h < fresh l then (l\<lparr>isConnected := False, timers := timers l @ [100]\<rparr>, [])
      else (l, []))"
| "stt_step TimerFired l =
     (case timers l of
        [] \<Rightarrow> (l, [])
      | delay # rest \<Rightarrow>
          (let l' = l\<lparr>timers := rest\<rparr>
           in case onTranscriptCallback l' of
                Some onTranscript \<Rightarrow> (connect onTranscript (onErrorCallback l') Timer l', [])
              | None \<Rightarrow> (l', [])))"
| "stt_step (Result h d) l =
     (let transcript = extract_transcript d; isFinal = extract_final d
      in if h < fresh l \<and> transcript \<noteq> [] then
           (case onTranscriptCallback l of
              Some onTranscript \<Rightarrow> (l, [TranscriptCall onTranscript transcript isFinal])
            | None \<Rightarrow> (l, []))
         else (l, []))"

text \<open>Calls of the link's methods and events of its connections, in one trace.\<close>

datatype ('t, 'e) stt_action =
    CallConnect 't "'e option"
  | CallSendAudio bytes
  | CallDisconnect
  | Event stt_event

fun stt_apply :: "('t, 'e) stt_action \<Rightarrow> ('t, 'e) stt \<Rightarrow> ('t, 'e) stt \<times> ('t, 'e) call list" where
  "stt_apply (CallConnect onTranscript onError) l = (connect onTranscript onError Caller l, [])"
| "stt_apply (CallSendAudio audioBuffer) l = sendAudio audioBuffer l"
| "stt_apply CallDisconnect l = (case disconnect l of Inl err \<Rightarrow> (l, []) | Inr l' \<Rightarrow> (l', []))"
| "stt_apply (Event e) l = stt_step e l"

fun stt_run ::
  "('t, 'e) stt_action list \<Rightarrow> ('t, 'e) stt \<Rightarrow> ('t, 'e) call list \<Rightarrow> ('t, 'e) stt \<times> ('t, 'e) call list" where
  "stt_run [] l calls = (l, calls)"
| "stt_run (a # rest) l calls =
     (case stt_apply a l of (l', new) \<Rightarrow> stt_run rest l' (calls @ new))"

text \<open>
  A remote end that closes every connection: the current connection \<open>h\<close> closes, the
  reconnect timer fires, and the connection the new attempt creates fails.
\<close>

fun storm :: "nat \<Rightarrow> handle \<Rightarrow> handle \<Rightarrow> ('t, 'e) stt_action list" where
  "storm 0 h next = []"
| "storm (Suc k) h next =
     Event (Closed h) # Event TimerFired # Event (Failed next ''refused'') #
       storm k next (Suc next)"

text \<open>
  A link whose first connection attempt timed out: not connected, no attempt pending,
  the caller's transcript callback stored.
\<close>

definition unconnected :: "(unit, unit) stt" where
  "unconnected = fst (stt_run [CallConnect () None, Event (TimedOut 0)] new_stt [])"

section \<open>The synthesis link\<close>

text \<open>
  \<open>DeepgramTTS.disconnect\<close> and the two fields it writes; \<open>tts_faulty\<close> are the
  connections whose \<open>close\<close> throws.
\<close>

record tts =
  tts_connection :: "handle option"
  tts_isConnected :: bool
  tts_closed :: "handle list"
  tts_faulty :: "handle list"

definition close_connection :: "handle \<Rightarrow> tts \<Rightarrow> string + tts" where
  "close_connection h t =
     (if h \<in> set (tts_faulty t) then Inl ''close failed''
      else Inr (t\<lparr>tts_closed := tts_closed t @ [h]\<rparr>))"

definition tts_disconnect :: "tts \<Rightarrow> string + tts" where
  "tts_disconnect t =
     (case tts_connection t of
        Some h \<Rightarrow>
          (case close_connection h t of
             Inl err \<Rightarrow> Inr (t\<lparr>tts_connection := None, tts_isConnected := False\<rparr>)
           | Inr t' \<Rightarrow> Inr (t'\<lparr>tts_connection := None, tts_isConnected := False\<rparr>))
      | None \<Rightarrow> Inr (t\<lparr>tts_isConnected := False\<rparr>))"

text \<open>Calling a \<open>disconnect\<close> again and again; a throw would end the sequence.\<close>

fun disconnect_times :: "nat \<Rightarrow> ('t, 'e) stt \<Rightarrow> string + ('t, 'e) stt" where
  "disconnect_times 0 l = Inr l"
| "disconnect_times (Suc n) l =
     (case disconnect l of Inl err \<Rightarrow> Inl err | Inr l' \<Rightarrow> disconnect_times n l')"

fun tts_disconnect_times :: "nat \<Rightarrow> tts \<Rightarrow> string + tts" where
  "tts_disconnect_times 0 t = Inr t"
| "tts_disconnect_times (Suc n) t =
     (case tts_disconnect t of Inl err \<Rightarrow> Inl err | Inr t' \<Rightarrow> tts_disconnect_times n t')"

section \<open>The session controller\<close>

text \<open>
  The controller is \<open>MyDurableObject.fetch\<close> in the variant of \<open>index.ts\<close> that
  connects the transcription link and receives its transcripts through a callback.
  (The other variant transcribes each binary frame with the deprecated \<open>transcribe\<close>;
  its text-frame branch and its synthesis job are the same code.)

  The state of \<open>MyDurableObject\<close> within one \<open>fetch\<close>: the history, the messages given
  to \<open>ws.send\<close> in order, the calls of \<open>streamText\<close> (each with the history it was
  given), the queue and the two links.  The session's two callbacks of the transcription
  link are the closures of \<open>fetch\<close>; the link stores them as \<open>()\<close>.
\<close>

record session =
  msgHistory :: "turn list"
  ws :: "outbound list"
  inferences :: "turn list list"
  queue :: pqueue
  deepgramSTT :: "(unit, unit) stt"
  deepgramTTS :: tts

text \<open>
  A text frame is read by \<open>JSON.parse\<close> and destructured into \<open>type\<close> and \<open>data\<close>;
  \<open>None\<close> is a frame on which that throws.  Of each of the two values only its being
  a given string matters.
\<close>

datatype jsvalue = JString string | JOther

datatype frame = TextFrame "(jsvalue \<times> jsvalue) option" | BinaryFrame bytes

text \<open>The control message \<open>{type: "cmd", data: "clear"}\<close>.\<close>

definition clear_command :: frame where
  "clear_command = TextFrame (Some (JString ''cmd'', JString ''clear''))"

datatype session_event =
    Message frame
  | Link stt_event
  | Sentence string
  | SpeakSettled speak_outcome
  | PollTick
  | SocketClosed

definition on_queue :: "queue_event \<Rightarrow> session \<Rightarrow> session" where
  "on_queue e s =
     (case queue_step e (queue s) of
        (q, messages) \<Rightarrow> s\<lparr>queue := q, ws := ws s @ messages\<rparr>)"

text \<open>
  The callback that \<open>fetch\<close> gives to \<open>bufferText\<close>: it pushes the assistant turn, then
  adds the synthesis job to the queue.
\<close>

definition on_sentence :: "string \<Rightarrow> session \<Rightarrow> session" where
  "on_sentence sentence s =
     on_queue (Add sentence)
       (s\<lparr>msgHistory := msgHistory s @ [\<lparr>role = Assistant, content = sentence\<rparr>]\<rparr>)"

text \<open>
  The transcript callback that \<open>fetch\<close> gives to \<open>deepgramSTT.connect\<close>, up to the call
  of \<open>streamText\<close>; the sentences of the reply arrive later, as \<open>Sentence\<close> events.
\<close>

definition on_transcript :: "string \<Rightarrow> bool \<Rightarrow> session \<Rightarrow> session" where
  "on_transcript text isFinal s =
     (let s1 = s\<lparr>ws := ws s @ [TranscriptText text (\<not> isFinal)]\<rparr>
      in if isFinal \<and> trim text \<noteq> [] then
           (let s2 = s1\<lparr>msgHistory := msgHistory s1 @ [\<lparr>role = User, content = text\<rparr>]\<rparr>
            in s2\<lparr>inferences := inferences s2 @ [msgHistory s2]\<rparr>)
         else s1)"

text \<open>The error callback of the session only logs.\<close>

fun apply_call :: "(unit, unit) call \<Rightarrow> session \<Rightarrow> session" where
  "apply_call (TranscriptCall cb text isFinal) s = on_transcript text isFinal s"
| "apply_call (ErrorCall cb message) s = s"

fun apply_calls :: "(unit, unit) call list \<Rightarrow> session \<Rightarrow> session" where
  "apply_calls [] s = s"
| "apply_calls (c # cs) s = apply_calls cs (apply_call c s)"

definition with_link :: "(unit, unit) stt \<times> (unit, unit) call list \<Rightarrow> session \<Rightarrow> session" where
  "with_link r s = (case r of (l, calls) \<Rightarrow> apply_calls calls (s\<lparr>deepgramSTT := l\<rparr>))"

text \<open>The listener of \<open>message\<close> events of the client socket.\<close>

fun on_message :: "frame \<Rightarrow> session \<Rightarrow> session" where
  "on_message (TextFrame None) s = s"
| "on_message (TextFrame (Some (type, data))) s =
     (if type = JString ''cmd'' \<and> data = JString ''clear'' then s\<lparr>msgHistory := []\<rparr> else s)"
| "on_message (BinaryFrame audio) s = with_link (sendAudio audio (deepgramSTT s)) s"

text \<open>The listener of the \<open>close\<close> event: both links are disconnected.\<close>

definition on_close :: "session \<Rightarrow> session" where
  "on_close s =
     (let s1 = (case tts_disconnect (deepgramTTS s) of
                  Inl err \<Rightarrow> s | Inr t \<Rightarrow> s\<lparr>deepgramTTS := t\<rparr>)
      in case disconnect (deepgramSTT s1) of
           Inl err \<Rightarrow> s1 | Inr l \<Rightarrow> s1\<lparr>deepgramSTT := l\<rparr>)"

fun session_step :: "session_event \<Rightarrow> session \<Rightarrow> session" where
  "session_step (Message f) s = on_message f s"
| "session_step (Link e) s = with_link (stt_step e (deepgramSTT s)) s"
| "session_step (Sentence sentence) s = on_sentence sentence s"
| "session_step (SpeakSettled outcome) s = on_queue (Settled outcome) s"
| "session_step PollTick s = on_queue Tick s"
| "session_step SocketClosed s = on_close s"

fun session_run :: "session_event list \<Rightarrow> session \<Rightarrow> session" where
  "session_run [] s = s"
| "session_run (e # es) s = session_run es (session_step e s)"

text \<open>
  The session after the constructor and the synchronous part of \<open>fetch\<close>: empty history,
  and the transcription link connecting with the session's callbacks.
\<close>

definition opened :: session where
  "opened =
     \<lparr>msgHistory = [], ws = [], inferences = [], queue = idle,
      deepgramSTT = connect () (Some ()) Caller new_stt,
      deepgramTTS = \<lparr>tts_connection = None, tts_isConnected = True, tts_closed = [],
        tts_faulty = []\<rparr>\<rparr>"

text \<open>The session once the connection of the transcription link has opened.\<close>

definition listening :: session where
  "listening = session_step (Link (Open 0)) opened"

text \<open>
  An event that appends no turn: not a sentence of a reply, and not a final transcript
  with text other than white space.
\<close>

fun quiet :: "session_event \<Rightarrow> bool" where
  "quiet (Sentence sentence) \<longleftrightarrow> False"
| "quiet (Link (Result h d)) \<longleftrightarrow> \<not> (extract_final d \<and> trim (extract_transcript d) \<noteq> [])"
| "quiet e \<longleftrightarrow> True"

section \<open>Properties of the Sentence Buffer\<close>

declare extract_units.simps [simp del]

lemma first_terminal_range:
  "first_terminal terminal buf = Some n \<Longrightarrow> 0 < n \<and> n \<le> length buf"
  by (induction buf arbitrary: n) (auto split: if_splits)

lemma boundary_range:
  "boundary terminal cap buf = Some n \<Longrightarrow> 0 < n \<and> n \<le> length buf"
  unfolding boundary_def
  by (auto split: option.splits if_splits dest: first_terminal_range)

lemma extract_units_pieces:
  "extract_units terminal cap buf = (units, rest) \<Longrightarrow>
     \<exists>pieces. concat pieces @ rest = buf \<and> [] \<notin> set pieces \<and> units = map trim pieces"
proof (induction terminal cap buf arbitrary: units rest rule: extract_units.induct)
  case (1 terminal cap buf)
  show ?case
  proof (cases "boundary terminal cap buf")
    case None
    with "1.prems" have "units = []" "rest = buf"
      by (simp_all add: extract_units.simps [of terminal cap buf])
    then have "concat [] @ rest = buf \<and> [] \<notin> set ([] :: string list) \<and> units = map trim []"
      by simp
    then show ?thesis by blast
  next
    case (Some n)
    obtain us r where rec: "extract_units terminal cap (drop n buf) = (us, r)"
      by (cases "extract_units terminal cap (drop n buf)")
    from "1.IH" [OF Some rec] obtain ps where
      ps: "concat ps @ r = drop n buf" "[] \<notin> set ps" "us = map trim ps"
      by blast
    from boundary_range [OF Some] have ne: "take n buf \<noteq> []"
      by auto
    from "1.prems" Some rec have "units = trim (take n buf) # us" "rest = r"
      by (simp_all add: extract_units.simps [of terminal cap buf])
    with ps ne have "concat (take n buf # ps) @ rest = buf \<and> [] \<notin> set (take n buf # ps) \<and>
        units = map trim (take n buf # ps)"
      by simp
    then show ?thesis by blast
  qed
qed

lemma feed_pieces:
  "feed terminal cap residual fragments = (units, final) \<Longrightarrow>
     \<exists>pieces. concat pieces @ final = residual @ concat fragments \<and> [] \<notin> set pieces \<and>
       units = map trim pieces"
proof (induction fragments arbitrary: residual units final)
  case Nil
  then have "concat [] @ final = residual @ concat [] \<and> [] \<notin> set ([] :: string list) \<and>
      units = map trim []"
    by simp
  then show ?case by blast
next
  case (Cons fragment fragments)
  obtain us r where acc: "accumulate terminal cap fragment residual = (us, r)"
    by (cases "accumulate terminal cap fragment residual")
  obtain vs f where rec: "feed terminal cap r fragments = (vs, f)"
    by (cases "feed terminal cap r fragments")
  from acc obtain ps where
    ps: "concat ps @ r = residual @ fragment" "[] \<notin> set ps" "us = map trim ps"
    unfolding accumulate_def by (blast dest: extract_units_pieces)
  from Cons.IH [OF rec] obtain qs where
    qs: "concat qs @ f = r @ concat fragments" "[] \<notin> set qs" "vs = map trim qs"
    by blast
  from Cons.prems acc rec have res: "units = us @ vs" "final = f"
    by simp_all
  have "concat (ps @ qs) @ final = concat ps @ (concat qs @ f)"
    by (simp add: res)
  also have "\<dots> = (concat ps @ r) @ concat fragments"
    by (simp add: qs(1))
  also have "\<dots> = residual @ concat (fragment # fragments)"
    by (simp add: ps(1))
  finally have "concat (ps @ qs) @ final = residual @ concat (fragment # fragments)" .
  moreover from ps(2) qs(2) have "[] \<notin> set (ps @ qs)"
    by simp
  moreover from res ps(3) qs(3) have "units = map trim (ps @ qs)"
    by simp
  ultimately show ?case by blast
qed

lemma filter_dropWhile_not: "filter (\<lambda>c. \<not> P c) (dropWhile P xs) = filter (\<lambda>c. \<not> P c) xs"
  by (induction xs) simp_all

lemma visible_trim: "filter (\<lambda>c. \<not> is_space c) (trim s) = filter (\<lambda>c. \<not> is_space c) s"
proof -
  have "filter (\<lambda>c. \<not> is_space c) (trim s) =
      rev (filter (\<lambda>c. \<not> is_space c) (dropWhile is_space (rev (dropWhile is_space s))))"
    by (simp add: trim_def rev_filter)
  also have "\<dots> = rev (filter (\<lambda>c. \<not> is_space c) (rev (dropWhile is_space s)))"
    by (simp only: filter_dropWhile_not)
  also have "\<dots> = filter (\<lambda>c. \<not> is_space c) (dropWhile is_space s)"
    by (simp add: rev_filter)
  also have "\<dots> = filter (\<lambda>c. \<not> is_space c) s"
    by (rule filter_dropWhile_not)
  finally show ?thesis .
qed

lemma visible_trimmed_pieces:
  "filter (\<lambda>c. \<not> is_space c) (concat (map trim pieces)) =
     filter (\<lambda>c. \<not> is_space c) (concat pieces)"
  by (induction pieces) (simp_all add: visible_trim)

text \<open>
  Claim C2, as amended.  For every finite sequence of text fragments, the units emitted,
  in emission order and with the final flush, are the consecutive non-empty pieces of
  the concatenated input, each without the white space at its two ends.  So the
  concatenation of the units is the concatenation of the fragments up to white space:
  the two are equal once white space is removed, no unit is emitted twice, and nothing
  but white space at the ends of a unit is dropped.
\<close>

theorem bufferText_reproduces_input_up_to_white_space:
  "(\<exists>pieces. concat pieces = concat fragments \<and> [] \<notin> set pieces \<and>
      bufferText terminal cap fragments = map trim pieces) \<and>
   filter (\<lambda>c. \<not> is_space c) (concat (bufferText terminal cap fragments)) =
     filter (\<lambda>c. \<not> is_space c) (concat fragments)"
proof -
  obtain units residual where fd: "feed terminal cap [] fragments = (units, residual)"
    by (cases "feed terminal cap [] fragments")
  from feed_pieces [OF fd] obtain ps where
    ps: "concat ps @ residual = concat fragments" "[] \<notin> set ps" "units = map trim ps"
    by auto
  let ?pieces = "ps @ (if residual = [] then [] else [residual])"
  have a: "concat ?pieces = concat fragments"
    using ps(1) by auto
  have b: "[] \<notin> set ?pieces"
    using ps(2) by simp
  have c: "bufferText terminal cap fragments = map trim ?pieces"
    using fd ps(3) by (simp add: bufferText_def)
  from c have "filter (\<lambda>c. \<not> is_space c) (concat (bufferText terminal cap fragments)) =
      filter (\<lambda>c. \<not> is_space c) (concat ?pieces)"
    by (simp only: visible_trimmed_pieces)
  with a have d: "filter (\<lambda>c. \<not> is_space c) (concat (bufferText terminal cap fragments)) =
      filter (\<lambda>c. \<not> is_space c) (concat fragments)"
    by simp
  from a b c have "\<exists>pieces. concat pieces = concat fragments \<and> [] \<notin> set pieces \<and>
      bufferText terminal cap fragments = map trim pieces"
    by blast
  with d show ?thesis by blast
qed

text \<open>
  Claim C2 as stated fails on the scenario of section 8 of the specification, with the
  full stop, the exclamation mark and the question mark as terminal punctuation and no
  cap: the units are the two the scenario gives, and their concatenation lacks the
  blank between the sentences of the input.
\<close>

theorem bufferText_trims_counterexample:
  "bufferText (\<lambda>c. c \<in> {CHR ''.'', CHR ''!'', CHR ''?''}) 0
     [''Hello there'', ''. How are'', '' you?''] =
     [''Hello there.'', ''How are you?''] \<and>
   concat (bufferText (\<lambda>c. c \<in> {CHR ''.'', CHR ''!'', CHR ''?''}) 0
     [''Hello there'', ''. How are'', '' you?'']) \<noteq>
     concat [''Hello there'', ''. How are'', '' you?'']"
  by (simp add: bufferText_def accumulate_def extract_units.simps boundary_def trim_def
      is_space_def)

section \<open>Properties of the queue of synthesis jobs\<close>

lemma job_message_for: "message_for sentence (job_message sentence cap)"
  by (simp add: job_message_def fallback_def split: option.splits)

lemma held_start_next: "held (start_next q) = pending q"
  by (simp add: held_def start_next_def split: list.splits)

lemma poll_held:
  assumes "running q = Some (sentence, p)" and "poll sentence cap elapsed q = (q', ms)"
  shows "\<exists>done. list_all2 message_for done ms \<and> held q = done @ held q'"
proof (cases "waiting cap elapsed")
  case True
  with assms have "ms = []" "held q' = held q"
    by (auto simp add: poll_def held_def)
  then show ?thesis by simp
next
  case False
  with assms have "ms = [job_message sentence cap]" and q': "q' = start_next q"
    by (auto simp add: poll_def)
  moreover from q' have "held q' = pending q"
    by (simp add: held_start_next)
  moreover from assms(1) have "held q = sentence # pending q"
    by (simp add: held_def)
  ultimately have "list_all2 message_for [sentence] ms \<and> held q = [sentence] @ held q'"
    by (simp add: job_message_for)
  then show ?thesis by blast
qed

lemma queue_step_held:
  assumes "queue_step e q = (q', ms)"
  shows "\<exists>done. list_all2 message_for done ms \<and> held q @ submitted [e] = done @ held q'"
proof (cases e)
  case (Add sentence)
  with assms have "ms = []" "held q' = held q @ [sentence]"
    by (auto simp add: Let_def held_def start_next_def split: if_splits list.splits option.splits)
  with Add show ?thesis by simp
next
  case (Settled outcome)
  show ?thesis
  proof (cases "running q")
    case None
    with Settled assms show ?thesis by auto
  next
    case (Some job)
    obtain sentence p where job: "job = (sentence, p)" by (cases job)
    show ?thesis
    proof (cases p)
      case Synthesizing
      with Settled Some job assms
      have "poll sentence (synthesize outcome \<lparr>audioResult = None, errorResult = None\<rparr>) 0 q = (q', ms)"
        by simp
      from poll_held [OF _ this] Some job Settled show ?thesis by simp
    next
      case (Polling cap elapsed)
      with Settled Some job assms show ?thesis by auto
    qed
  qed
next
  case Tick
  show ?thesis
  proof (cases "running q")
    case None
    with Tick assms show ?thesis by auto
  next
    case (Some job)
    obtain sentence p where job: "job = (sentence, p)" by (cases job)
    show ?thesis
    proof (cases p)
      case Synthesizing
      with Tick Some job assms show ?thesis by auto
    next
      case (Polling cap elapsed)
      with Tick Some job assms
      have "poll sentence cap (elapsed + 100) q = (q', ms)"
        by simp
      from poll_held [OF _ this] Some job Tick show ?thesis by simp
    qed
  qed
qed

lemma submitted_Cons: "submitted (e # es) = submitted [e] @ submitted es"
  by (cases e) simp_all

lemma queue_run_held:
  assumes "list_all2 message_for answered sent" and "queue_run es q sent = (q', sent')"
  shows "\<exists>answered'. list_all2 message_for answered' sent' \<and>
           answered @ held q @ submitted es = answered' @ held q'"
  using assms
proof (induction es arbitrary: q sent answered)
  case Nil
  then show ?case by auto
next
  case (Cons e es)
  obtain q1 ms where step: "queue_step e q = (q1, ms)"
    by (cases "queue_step e q")
  from queue_step_held [OF step] obtain new where
    new: "list_all2 message_for new ms" "held q @ submitted [e] = new @ held q1"
    by blast
  from Cons.prems(1) new(1) have all: "list_all2 message_for (answered @ new) (sent @ ms)"
    by (rule list_all2_appendI)
  from Cons.prems(2) step have run: "queue_run es q1 (sent @ ms) = (q', sent')"
    by simp
  from Cons.IH [OF all run] obtain answered' where
    a: "list_all2 message_for answered' sent'"
       "(answered @ new) @ held q1 @ submitted es = answered' @ held q'"
    by blast
  have "answered @ held q @ submitted (e # es) = answered @ (held q @ submitted [e]) @ submitted es"
    by (simp add: submitted_Cons [of e es])
  also have "\<dots> = (answered @ new) @ held q1 @ submitted es"
    by (simp add: new(2))
  finally show ?case using a by auto
qed

text \<open>
  Claim C1.  Whatever the order and the timing of submissions, synthesis results and
  polling wake-ups, the messages the queue has sent are, one for one and in order, the
  messages of the first sentences submitted: the message of a sentence submitted
  earlier always precedes the message of a sentence submitted later.  The sentences
  not yet answered are the ones the queue still holds, in submission order.
\<close>

theorem queue_emits_in_submission_order:
  "list_all2 message_for
     (take (length (snd (queue_run es idle []))) (submitted es)) (snd (queue_run es idle [])) \<and>
   drop (length (snd (queue_run es idle []))) (submitted es) = held (fst (queue_run es idle []))"
proof -
  obtain q sent where run: "queue_run es idle [] = (q, sent)"
    by (cases "queue_run es idle []")
  have "list_all2 message_for [] []" by simp
  from queue_run_held [OF this run] obtain answered where
    a: "list_all2 message_for answered sent" "[] @ held idle @ submitted es = answered @ held q"
    by blast
  have "held idle = []" by (simp add: held_def idle_def)
  with a(2) have eq: "submitted es = answered @ held q" by simp
  from a(1) have len: "length answered = length sent"
    by (rule list_all2_lengthD)
  from eq len have "take (length sent) (submitted es) = answered" "drop (length sent) (submitted es) = held q"
    by simp_all
  with a(1) run show ?thesis by simp
qed

lemma start_next_running: "start_next (q\<lparr>running := r\<rparr>) = start_next q"
  by (simp add: start_next_def split: list.splits)

lemma ticks_while_synthesizing:
  "running q = Some (sentence, Synthesizing) \<Longrightarrow> queue_run (replicate n Tick) q sent = (q, sent)"
  by (induction n) simp_all

lemma settled_with_audio:
  assumes "running q = Some (sentence, Synthesizing)" and "audio \<noteq> []"
  shows "queue_step (Settled (Processed (Some audio))) q = (start_next q, [AudioMessage sentence audio])"
  using assms by (simp add: poll_def synthesize_def waiting_def truthy_def job_message_def)

lemma settled_with_error:
  assumes "running q = Some (sentence, Synthesizing)"
  shows "queue_step (Settled (Rejected err)) q = (start_next q, [fallback sentence])"
  using assms by (simp add: poll_def synthesize_def waiting_def job_message_def)

lemma settled_without_audio:
  assumes "running q = Some (sentence, Synthesizing)" and "\<not> truthy audio"
  shows "queue_step (Settled (Processed audio)) q =
           (q\<lparr>running := Some (sentence, Polling \<lparr>audioResult = None, errorResult = None\<rparr> 0)\<rparr>, [])"
  using assms by (auto simp add: poll_def synthesize_def waiting_def truthy_def split: option.splits)

lemma polling_times_out:
  assumes "running q = Some (sentence, Polling \<lparr>audioResult = None, errorResult = None\<rparr> elapsed)"
    and "elapsed + 100 * Suc n = 10000"
  shows "queue_run (replicate (Suc n) Tick) q sent = (start_next q, sent @ [fallback sentence])"
  using assms
proof (induction n arbitrary: q elapsed)
  case 0
  then show ?case
    by (simp add: poll_def waiting_def truthy_def job_message_def)
next
  case (Suc n)
  let ?q = "q\<lparr>running := Some (sentence, Polling \<lparr>audioResult = None, errorResult = None\<rparr> (elapsed + 100))\<rparr>"
  from Suc.prems have step: "queue_step Tick q = (?q, [])"
    by (simp add: poll_def waiting_def truthy_def)
  from Suc.prems(2) have later: "(elapsed + 100) + 100 * Suc n = 10000"
    by arith
  have "running ?q = Some (sentence, Polling \<lparr>audioResult = None, errorResult = None\<rparr> (elapsed + 100))"
    by simp
  from Suc.IH [OF this later]
  have "queue_run (replicate (Suc n) Tick) ?q sent = (start_next ?q, sent @ [fallback sentence])" .
  with step show ?case
    by (simp add: start_next_running)
qed

text \<open>
  Claim C3.  A job whose synthesis request settles sends exactly one message (the three
  lemmas above and \<open>polling_times_out\<close>): the audio, or the fallback at once on an
  error, or the fallback after one hundred polls of 100 ms when no audio was produced.
  A request that does not settle is not covered by the timeout, which only starts after
  \<open>await this.deepgramTTS.synthesize(sentence)\<close>: fifteen seconds of polling
  wake-ups after two submissions, nothing has been sent for the first sentence and the
  second still waits behind it.
\<close>

theorem pending_synthesis_stalls_queue:
  "queue_run (Add ''One.'' # Add ''Two.'' # replicate 150 Tick) idle [] =
     (\<lparr>pending = [''Two.''], running = Some (''One.'', Synthesizing)\<rparr>, [])"
proof -
  let ?q = "\<lparr>pending = [''Two.''], running = Some (''One.'', Synthesizing)\<rparr>"
  have "queue_run [Add ''One.'', Add ''Two.''] idle [] = (?q, [])"
    by (simp add: idle_def start_next_def)
  moreover have "queue_run (replicate 150 Tick) ?q [] = (?q, [])"
    by (rule ticks_while_synthesizing) simp
  ultimately show ?thesis
    by (simp add: idle_def start_next_def)
qed

section \<open>Properties of the links\<close>

lemma disconnect_result:
  "\<exists>l'. disconnect l = Inr l' \<and> \<not> isConnected l' \<and> connection l' = None"
  by (auto simp add: disconnect_def finish_connection_def split: option.splits)

lemma disconnect_again:
  "\<not> isConnected l \<Longrightarrow> connection l = None \<Longrightarrow> disconnect l = Inr l"
  by (simp add: disconnect_def)

lemma disconnect_times_again:
  "\<not> isConnected l \<Longrightarrow> connection l = None \<Longrightarrow> disconnect_times n l = Inr l"
  by (induction n) (simp_all add: disconnect_again)

lemma tts_disconnect_result:
  "\<exists>t'. tts_disconnect t = Inr t' \<and> \<not> tts_isConnected t' \<and> tts_connection t' = None"
  by (auto simp add: tts_disconnect_def close_connection_def split: option.splits)

lemma tts_disconnect_again:
  "\<not> tts_isConnected t \<Longrightarrow> tts_connection t = None \<Longrightarrow> tts_disconnect t = Inr t"
  by (simp add: tts_disconnect_def)

lemma tts_disconnect_times_again:
  "\<not> tts_isConnected t \<Longrightarrow> tts_connection t = None \<Longrightarrow> tts_disconnect_times n t = Inr t"
  by (induction n) (simp_all add: tts_disconnect_again)

text \<open>
  Claim C9.  \<open>disconnect\<close>, of the transcription link and of the synthesis link, never
  throws (its result is never \<open>Inl\<close>, also on a connection whose \<open>finish\<close> or
  \<open>close\<close> throws), leaves the link with \<open>isConnected = false\<close> and no connection,
  and is idempotent: a second call, and any number of calls, end in the state the first
  call reached.
\<close>

theorem disconnect_idempotent:
  "(\<exists>l'. disconnect l = Inr l' \<and> \<not> isConnected l' \<and> connection l' = None \<and>
          disconnect l' = Inr l' \<and> disconnect_times (Suc n) l = Inr l') \<and>
   (\<exists>t'. tts_disconnect t = Inr t' \<and> \<not> tts_isConnected t' \<and> tts_connection t' = None \<and>
          tts_disconnect t' = Inr t' \<and> tts_disconnect_times (Suc n) t = Inr t')"
proof
  from disconnect_result [of l] obtain l' where
    l': "disconnect l = Inr l'" "\<not> isConnected l'" "connection l' = None"
    by blast
  from l'(2,3) have "disconnect l' = Inr l'"
    by (rule disconnect_again)
  moreover from l' have "disconnect_times (Suc n) l = Inr l'"
    by (simp add: disconnect_times_again)
  ultimately show "\<exists>l'. disconnect l = Inr l' \<and> \<not> isConnected l' \<and> connection l' = None \<and>
          disconnect l' = Inr l' \<and> disconnect_times (Suc n) l = Inr l'"
    using l' by blast
next
  from tts_disconnect_result [of t] obtain t' where
    t': "tts_disconnect t = Inr t'" "\<not> tts_isConnected t'" "tts_connection t' = None"
    by blast
  from t'(2,3) have "tts_disconnect t' = Inr t'"
    by (rule tts_disconnect_again)
  moreover from t' have "tts_disconnect_times (Suc n) t = Inr t'"
    by (simp add: tts_disconnect_times_again)
  ultimately show "\<exists>t'. tts_disconnect t = Inr t' \<and> \<not> tts_isConnected t' \<and> tts_connection t' = None \<and>
          tts_disconnect t' = Inr t' \<and> tts_disconnect_times (Suc n) t = Inr t'"
    using t' by blast
qed

section \<open>Properties of the session controller\<close>

lemma on_queue_history: "msgHistory (on_queue e s) = msgHistory s"
  by (simp add: on_queue_def split: prod.splits)

lemma on_queue_inferences: "inferences (on_queue e s) = inferences s"
  by (simp add: on_queue_def split: prod.splits)

text \<open>
  Claim C7.  When the Sentence Buffer hands over a sentence, the assistant turn is
  appended to the history while the sentence is only added to the queue: no message has
  been sent for it.  No later synthesis event (a result, an error, a polling wake-up
  that ends in the timeout) changes the history.
\<close>

theorem assistant_turn_precedes_synthesis:
  "msgHistory (session_step (Sentence sentence) s) =
     msgHistory s @ [\<lparr>role = Assistant, content = sentence\<rparr>] \<and>
   ws (session_step (Sentence sentence) s) = ws s \<and>
   held (queue (session_step (Sentence sentence) s)) = held (queue s) @ [sentence] \<and>
   msgHistory (session_step (SpeakSettled outcome) s') = msgHistory s' \<and>
   msgHistory (session_step PollTick s') = msgHistory s'"
proof -
  have "msgHistory (on_sentence sentence s) = msgHistory s @ [\<lparr>role = Assistant, content = sentence\<rparr>]"
    by (simp add: on_sentence_def on_queue_history)
  moreover have "ws (on_sentence sentence s) = ws s"
    by (simp add: on_sentence_def on_queue_def Let_def)
  moreover have "held (queue (on_sentence sentence s)) = held (queue s) @ [sentence]"
    by (auto simp add: on_sentence_def on_queue_def Let_def held_def start_next_def
        split: list.splits option.splits)
  ultimately show ?thesis
    by (simp add: on_queue_history)
qed

lemma report_errors: "list_all is_error_call (report message l)"
  by (simp add: report_def split: option.splits)

lemma sendAudio_errors: "list_all is_error_call (snd (sendAudio audio l))"
  by (simp add: sendAudio_def report_errors split: option.splits)

lemma connect_returned_errors: "list_all is_error_call (snd (connect_returned connected origin l))"
  by (simp add: connect_returned_def Let_def sendAudio_errors split: origin.splits)

lemma connect_returned_errors':
  "connect_returned connected origin l = (l', calls) \<Longrightarrow> list_all is_error_call calls"
  using connect_returned_errors [of connected origin l] by simp

lemma stt_step_calls:
  "list_all is_error_call (snd (stt_step e l)) \<or>
   (\<exists>h d cb. e = Result h d \<and> extract_transcript d \<noteq> [] \<and>
      stt_step e l = (l, [TranscriptCall cb (extract_transcript d) (extract_final d)]))"
proof (cases e)
  case (Open h)
  then show ?thesis
    by (simp add: connect_returned_errors split: option.splits)
next
  case (Failed h message)
  then show ?thesis
    by (auto simp add: Let_def report_errors split: option.splits prod.splits
        dest: connect_returned_errors')
next
  case (TimedOut h)
  then show ?thesis
    by (auto simp add: report_errors split: option.splits prod.splits
        dest: connect_returned_errors')
next
  case (Closed h)
  then show ?thesis by simp
next
  case TimerFired
  then show ?thesis
    by (simp add: Let_def split: list.splits option.splits)
next
  case (Result h d)
  then show ?thesis
    by (simp add: Let_def split: option.splits)
qed

lemma apply_calls_errors: "list_all is_error_call calls \<Longrightarrow> apply_calls calls s = s"
proof (induction calls arbitrary: s)
  case Nil
  then show ?case by simp
next
  case (Cons c calls)
  then show ?case by (cases c) simp_all
qed

lemma with_link_errors:
  "list_all is_error_call (snd r) \<Longrightarrow> with_link r s = s\<lparr>deepgramSTT := fst r\<rparr>"
  by (cases r) (simp add: with_link_def apply_calls_errors)

lemma on_close_history: "msgHistory (on_close s) = msgHistory s \<and> inferences (on_close s) = inferences s"
  by (simp add: on_close_def Let_def split: sum.splits)

lemma on_message_history:
  "(msgHistory (on_message f s) = msgHistory s \<or> msgHistory (on_message f s) = []) \<and>
   inferences (on_message f s) = inferences s"
proof (cases f)
  case (TextFrame parsed)
  then show ?thesis
    by (cases parsed) auto
next
  case (BinaryFrame audio)
  then show ?thesis
    by (simp add: with_link_errors sendAudio_errors)
qed

lemma on_transcript_interim:
  "msgHistory (on_transcript said False s) = msgHistory s \<and>
   inferences (on_transcript said False s) = inferences s"
  by (simp add: on_transcript_def)

lemma on_transcript_blank:
  "trim said = [] \<Longrightarrow>
     msgHistory (on_transcript said isFinal s) = msgHistory s \<and>
     inferences (on_transcript said isFinal s) = inferences s"
  by (simp add: on_transcript_def)

lemma on_transcript_final:
  "trim said \<noteq> [] \<Longrightarrow>
     msgHistory (on_transcript said True s) = msgHistory s @ [\<lparr>role = User, content = said\<rparr>] \<and>
     inferences (on_transcript said True s) =
       inferences s @ [msgHistory s @ [\<lparr>role = User, content = said\<rparr>]]"
  by (simp add: on_transcript_def Let_def)

lemma link_result_step:
  "session_step (Link (Result h d)) s = s \<or>
   session_step (Link (Result h d)) s = on_transcript (extract_transcript d) (extract_final d) s"
  by (auto simp add: with_link_def Let_def split: option.splits)

lemma link_other_step:
  assumes "\<And>h d. e \<noteq> Result h d"
  shows "session_step (Link e) s = s\<lparr>deepgramSTT := fst (stt_step e (deepgramSTT s))\<rparr>"
proof -
  from stt_step_calls [of e "deepgramSTT s"] assms
  have "list_all is_error_call (snd (stt_step e (deepgramSTT s)))"
    by blast
  then show ?thesis
    by (simp add: with_link_errors)
qed

lemma session_step_effect:
  "(msgHistory (session_step e s) = msgHistory s \<and> inferences (session_step e s) = inferences s) \<or>
   (msgHistory (session_step e s) = [] \<and> inferences (session_step e s) = inferences s) \<or>
   (\<exists>h d. e = Link (Result h d) \<and> extract_final d \<and> trim (extract_transcript d) \<noteq> [] \<and>
      msgHistory (session_step e s) =
        msgHistory s @ [\<lparr>role = User, content = extract_transcript d\<rparr>] \<and>
      inferences (session_step e s) =
        inferences s @ [msgHistory s @ [\<lparr>role = User, content = extract_transcript d\<rparr>]]) \<or>
   (\<exists>sentence. e = Sentence sentence \<and>
      msgHistory (session_step e s) = msgHistory s @ [\<lparr>role = Assistant, content = sentence\<rparr>] \<and>
      inferences (session_step e s) = inferences s)"
proof (cases e)
  case (Message f)
  with on_message_history [of f s] show ?thesis by auto
next
  case (Link ev)
  show ?thesis
  proof (cases "\<exists>h d. ev = Result h d")
    case True
    then obtain h d where ev: "ev = Result h d" by blast
    let ?t = "extract_transcript d"
    from link_result_step [of h d s]
    consider "session_step e s = s" | "session_step e s = on_transcript ?t (extract_final d) s"
      using Link ev by auto
    then show ?thesis
    proof cases
      case 1
      then show ?thesis by simp
    next
      case 2
      show ?thesis
      proof (cases "extract_final d \<and> trim ?t \<noteq> []")
        case True
        with 2 on_transcript_final [of ?t s] Link ev show ?thesis by simp
      next
        case False
        then have "msgHistory (on_transcript ?t (extract_final d) s) = msgHistory s \<and>
            inferences (on_transcript ?t (extract_final d) s) = inferences s"
          by (auto simp add: on_transcript_def Let_def)
        with 2 show ?thesis by simp
      qed
    qed
  next
    case False
    then have "session_step (Link ev) s = s\<lparr>deepgramSTT := fst (stt_step ev (deepgramSTT s))\<rparr>"
      by (intro link_other_step) blast
    with Link show ?thesis by simp
  qed
next
  case (Sentence sentence)
  then show ?thesis
    by (simp add: on_sentence_def on_queue_history on_queue_inferences)
next
  case (SpeakSettled outcome)
  then show ?thesis
    by (simp add: on_queue_history on_queue_inferences)
next
  case PollTick
  then show ?thesis
    by (simp add: on_queue_history on_queue_inferences)
next
  case SocketClosed
  then show ?thesis
    by (simp add: on_close_history)
qed

text \<open>
  Claim C6.  A transcript event that is not final leaves the history unchanged and
  starts no inference.  For every event of the session: an inference starts only on a
  final transcript event, together with the append of its user turn; and the history
  after the event is the history before it, or empty (the clear command), or extended
  by the user turn of a final transcript, or extended by the assistant turn of a
  sentence handed over by the Sentence Buffer.
\<close>

theorem turns_only_on_final_transcripts_and_sentences:
  "msgHistory (on_transcript said False s) = msgHistory s \<and>
   inferences (on_transcript said False s) = inferences s \<and>
   (\<not> extract_final d \<longrightarrow>
      msgHistory (session_step (Link (Result h d)) s) = msgHistory s \<and>
      inferences (session_step (Link (Result h d)) s) = inferences s) \<and>
   (inferences (session_step e s) \<noteq> inferences s \<longrightarrow>
      (\<exists>h d. e = Link (Result h d) \<and> extract_final d \<and>
         msgHistory (session_step e s) =
           msgHistory s @ [\<lparr>role = User, content = extract_transcript d\<rparr>])) \<and>
   (msgHistory (session_step e s) = msgHistory s \<or>
    msgHistory (session_step e s) = [] \<or>
    (\<exists>h d. e = Link (Result h d) \<and> extract_final d \<and>
       msgHistory (session_step e s) =
         msgHistory s @ [\<lparr>role = User, content = extract_transcript d\<rparr>] \<and>
       inferences (session_step e s) = inferences s @ [msgHistory (session_step e s)]) \<or>
    (\<exists>sentence. e = Sentence sentence \<and>
       msgHistory (session_step e s) =
         msgHistory s @ [\<lparr>role = Assistant, content = sentence\<rparr>]))"
proof -
  have interim: "msgHistory (on_transcript said False s) = msgHistory s \<and>
      inferences (on_transcript said False s) = inferences s"
    by (rule on_transcript_interim)
  have not_final: "\<not> extract_final d \<longrightarrow>
      msgHistory (session_step (Link (Result h d)) s) = msgHistory s \<and>
      inferences (session_step (Link (Result h d)) s) = inferences s"
  proof
    assume "\<not> extract_final d"
    then have "extract_final d = False" by simp
    with link_result_step [of h d s]
    have "session_step (Link (Result h d)) s = s \<or>
        session_step (Link (Result h d)) s = on_transcript (extract_transcript d) False s"
      by metis
    with on_transcript_interim [of "extract_transcript d" s]
    show "msgHistory (session_step (Link (Result h d)) s) = msgHistory s \<and>
        inferences (session_step (Link (Result h d)) s) = inferences s"
      by metis
  qed
  have inference: "inferences (session_step e s) \<noteq> inferences s \<longrightarrow>
      (\<exists>h d. e = Link (Result h d) \<and> extract_final d \<and>
         msgHistory (session_step e s) =
           msgHistory s @ [\<lparr>role = User, content = extract_transcript d\<rparr>])"
    using session_step_effect [of e s] by auto
  have history: "msgHistory (session_step e s) = msgHistory s \<or>
    msgHistory (session_step e s) = [] \<or>
    (\<exists>h d. e = Link (Result h d) \<and> extract_final d \<and>
       msgHistory (session_step e s) =
         msgHistory s @ [\<lparr>role = User, content = extract_transcript d\<rparr>] \<and>
       inferences (session_step e s) = inferences s @ [msgHistory (session_step e s)]) \<or>
    (\<exists>sentence. e = Sentence sentence \<and>
       msgHistory (session_step e s) =
         msgHistory s @ [\<lparr>role = Assistant, content = sentence\<rparr>])"
    using session_step_effect [of e s] by auto
  from interim not_final inference history show ?thesis
    by blast
qed

lemma heard_transcript [simp]: "extract_transcript (heard said final) = said"
  by (simp add: heard_def extract_transcript_def)

lemma heard_final [simp]: "extract_final (heard said final) = final"
  by (simp add: heard_def extract_final_def)

lemma trim_Hello: "trim ''Hello'' = ''Hello''"
  by (simp add: trim_def is_space_def)


lemma trim_Next: "trim ''Next'' = ''Next''"
  by (simp add: trim_def is_space_def)

lemma listening_eq:
  "listening =
     \<lparr>msgHistory = [], ws = [], inferences = [], queue = idle,
      deepgramSTT =
        \<lparr>connection = Some 0, isConnected = True, isReconnecting = False,
         onTranscriptCallback = Some (), onErrorCallback = Some (), fresh = 1, promises = [],
         timers = [], wire = [], finished = [], faulty = []\<rparr>,
      deepgramTTS = \<lparr>tts_connection = None, tts_isConnected = True, tts_closed = [],
        tts_faulty = []\<rparr>\<rparr>"
  by (simp add: listening_def opened_def with_link_def connect_def new_stt_def settle_def
      connect_returned_def)

theorem turns_only_on_final_transcripts_and_sentences_witness:
  "\<not> extract_final (heard ''Hel'' False) \<and>
   msgHistory (session_step (Link (Result 0 (heard ''Hel'' False))) listening) =
     msgHistory listening \<and>
   inferences (session_step (Link (Result 0 (heard ''Hello'' True))) listening)
     \<noteq> inferences listening \<and>
   (\<exists>h d. Link (Result 0 (heard ''Hello'' True)) = Link (Result h d) \<and> extract_final d)"
proof -
  let ?s = listening
  have interim: "\<not> extract_final (heard ''Hel'' False)"
    by simp
  with turns_only_on_final_transcripts_and_sentences [of _ ?s "heard ''Hel'' False" 0]
  have a: "msgHistory (session_step (Link (Result 0 (heard ''Hel'' False))) ?s) = msgHistory ?s"
    by blast
  have changed: "inferences (session_step (Link (Result 0 (heard ''Hello'' True))) ?s) \<noteq> inferences ?s"
    by (simp add: listening_eq with_link_def Let_def on_transcript_def trim_Hello)
  with turns_only_on_final_transcripts_and_sentences
    [of _ ?s _ _ "Link (Result 0 (heard ''Hello'' True))"]
  have b: "\<exists>h d. Link (Result 0 (heard ''Hello'' True)) = Link (Result h d) \<and> extract_final d"
    by blast
  from interim a changed b show ?thesis
    by blast
qed

text \<open>
  Claim C10.  A transcription event whose extracted transcript is the empty string
  invokes no callback and leaves the whole session as it was: no message is sent, no
  turn appended.  A final transcript that is empty or only white space after trimming
  appends no user turn and starts no inference.
\<close>

theorem empty_transcripts_are_filtered:
  "(extract_transcript d = [] \<longrightarrow>
      stt_step (Result h d) l = (l, []) \<and> session_step (Link (Result h d)) s = s) \<and>
   (trim (extract_transcript d) = [] \<longrightarrow>
      msgHistory (session_step (Link (Result h d)) s) = msgHistory s \<and>
      inferences (session_step (Link (Result h d)) s) = inferences s) \<and>
   (trim said = [] \<longrightarrow>
      msgHistory (on_transcript said True s) = msgHistory s \<and>
      inferences (on_transcript said True s) = inferences s)"
proof -
  have empty: "extract_transcript d = [] \<longrightarrow>
      stt_step (Result h d) l = (l, []) \<and> session_step (Link (Result h d)) s = s"
    by (simp add: with_link_def)
  have blank: "trim (extract_transcript d) = [] \<longrightarrow>
      msgHistory (session_step (Link (Result h d)) s) = msgHistory s \<and>
      inferences (session_step (Link (Result h d)) s) = inferences s"
  proof
    assume "trim (extract_transcript d) = []"
    from on_transcript_blank [OF this] link_result_step [of h d s]
    show "msgHistory (session_step (Link (Result h d)) s) = msgHistory s \<and>
      inferences (session_step (Link (Result h d)) s) = inferences s"
      by metis
  qed
  have final: "trim said = [] \<longrightarrow>
      msgHistory (on_transcript said True s) = msgHistory s \<and>
      inferences (on_transcript said True s) = inferences s"
    using on_transcript_blank [of said True s] by blast
  from empty blank final show ?thesis
    by blast
qed

lemma trim_blanks: "trim ''  '' = []"
  by (simp add: trim_def is_space_def)

theorem empty_transcripts_are_filtered_witness:
  "extract_transcript (heard [] True) = [] \<and>
   session_step (Link (Result 0 (heard [] True))) listening =
     listening \<and>
   trim (extract_transcript (heard ''  '' True)) = [] \<and>
   msgHistory (session_step (Link (Result 0 (heard ''  '' True))) listening) =
     msgHistory listening \<and>
   ws (session_step (Link (Result 0 (heard ''  '' True))) listening) =
     [TranscriptText ''  '' False] \<and>
   trim ''  '' = [] \<and>
   inferences (on_transcript ''  '' True opened) = inferences opened"
proof -
  let ?s = listening
  have e: "extract_transcript (heard [] True) = []"
    by simp
  with empty_transcripts_are_filtered [of "heard [] True" 0 "deepgramSTT ?s" ?s] have a: "session_step (Link (Result 0 (heard [] True))) ?s = ?s"
    by blast
  have t: "trim (extract_transcript (heard ''  '' True)) = []"
    by (simp add: trim_blanks)
  with empty_transcripts_are_filtered [of "heard ''  '' True" 0 _ ?s]
  have b: "msgHistory (session_step (Link (Result 0 (heard ''  '' True))) ?s) = msgHistory ?s"
    by blast
  have w: "ws (session_step (Link (Result 0 (heard ''  '' True))) ?s) = [TranscriptText ''  '' False]"
    by (simp add: listening_eq with_link_def Let_def on_transcript_def trim_blanks)
  have t': "trim ''  '' = []"
    by (rule trim_blanks)
  with empty_transcripts_are_filtered [of _ _ _ opened "''  ''"]
  have c: "inferences (on_transcript ''  '' True opened) = inferences opened"
    by blast
  from e a t b w t' c show ?thesis
    by blast
qed

lemma clear_step:
  "session_step (Message clear_command) s = s\<lparr>msgHistory := []\<rparr>"
  by (simp add: clear_command_def)

lemma quiet_keeps_empty:
  assumes "quiet e" and "msgHistory s = []"
  shows "msgHistory (session_step e s) = []"
proof -
  from session_step_effect [of e s]
  consider "msgHistory (session_step e s) = msgHistory s"
    | "msgHistory (session_step e s) = []"
    | h d where "e = Link (Result h d)" "extract_final d" "trim (extract_transcript d) \<noteq> []"
    | sentence where "e = Sentence sentence"
    by blast
  then show ?thesis
  proof cases
    case 1
    with assms(2) show ?thesis by simp
  next
    case 2
    then show ?thesis .
  next
    case 3
    with assms(1) show ?thesis by simp
  next
    case 4
    with assms(1) show ?thesis by simp
  qed
qed

lemma quiet_run_keeps_empty:
  "list_all quiet es \<Longrightarrow> msgHistory s = [] \<Longrightarrow> msgHistory (session_run es s) = []"
  by (induction es arbitrary: s) (simp_all add: quiet_keeps_empty)

text \<open>
  Claim C8, as amended.  The control message \<open>{type: "cmd", data: "clear"}\<close> empties
  the history, whatever it held, and changes nothing else: the queue and its running
  job are as before.  If the events up to the next final transcript are quiet (no
  sentence of a reply that is still streaming, no other final transcript with text),
  that transcript, when it has text other than white space, makes the history exactly
  its user turn: length 1.
\<close>

theorem clear_then_quiet_starts_fresh_history:
  "session_step (Message clear_command) s = s\<lparr>msgHistory := []\<rparr> \<and>
   (list_all quiet es \<and> trim said \<noteq> [] \<longrightarrow>
      msgHistory (on_transcript said True (session_run es (session_step (Message clear_command) s))) =
        [\<lparr>role = User, content = said\<rparr>])"
proof -
  have "msgHistory (session_step (Message clear_command) s) = []"
    unfolding clear_step by simp
  then have "list_all quiet es \<Longrightarrow>
      msgHistory (session_run es (session_step (Message clear_command) s)) = []"
    by (rule quiet_run_keeps_empty [rotated])
  then have "list_all quiet es \<and> trim said \<noteq> [] \<longrightarrow>
      msgHistory (on_transcript said True (session_run es (session_step (Message clear_command) s))) =
        [\<lparr>role = User, content = said\<rparr>]"
    using on_transcript_final [of said "session_run es (session_step (Message clear_command) s)"]
    by simp
  with clear_step [of s] show ?thesis
    by blast
qed

text \<open>
  Claim C8 as stated fails when the clear command arrives while a reply is streaming:
  the first sentence is being synthesized, the command empties the history, the
  synthesis completes, the second sentence of the same reply is appended to the emptied
  history, and at the next final transcript the history has two turns.
\<close>

theorem clear_during_reply_counterexample:
  "msgHistory
     (session_run
        [Link (Result 0 (heard ''Hello'' True)), Sentence ''Hi.'', Message clear_command,
         SpeakSettled (Processed (Some ''QUJD'')), Sentence ''How are you?'',
         Link (Result 0 (heard ''Next'' True))]
        listening) =
     [\<lparr>role = Assistant, content = ''How are you?''\<rparr>, \<lparr>role = User, content = ''Next''\<rparr>]"
  by (simp add: listening_eq with_link_def Let_def on_transcript_def trim_Hello trim_Next
      on_sentence_def on_queue_def clear_command_def idle_def start_next_def poll_def
      synthesize_def waiting_def truthy_def job_message_def)

theorem clear_then_quiet_starts_fresh_history_witness:
  "list_all quiet [SpeakSettled (Processed (Some ''QUJD'')), PollTick] \<and> trim ''Next'' \<noteq> [] \<and>
   msgHistory
     (on_transcript ''Next'' True
        (session_run [SpeakSettled (Processed (Some ''QUJD'')), PollTick]
           (session_step (Message clear_command)
              (session_run [Link (Result 0 (heard ''Hello'' True)), Sentence ''Hi.''] listening)))) =
     [\<lparr>role = User, content = ''Next''\<rparr>]"
proof -
  have q: "list_all quiet [SpeakSettled (Processed (Some ''QUJD'')), PollTick]"
    by simp
  have t: "trim ''Next'' \<noteq> []"
    by (simp add: trim_Next)
  from q t clear_then_quiet_starts_fresh_history
    [of "session_run [Link (Result 0 (heard ''Hello'' True)), Sentence ''Hi.''] listening"
        "[SpeakSettled (Processed (Some ''QUJD'')), PollTick]" "''Next''"]
  have "msgHistory
     (on_transcript ''Next'' True
        (session_run [SpeakSettled (Processed (Some ''QUJD'')), PollTick]
           (session_step (Message clear_command)
              (session_run [Link (Result 0 (heard ''Hello'' True)), Sentence ''Hi.''] listening)))) =
     [\<lparr>role = User, content = ''Next''\<rparr>]"
    by blast
  with q t show ?thesis
    by blast
qed

section \<open>Properties of the transcription link\<close>

lemma well_formed_new: "well_formed new_stt"
  by (simp add: well_formed_def new_stt_def)

lemma well_formed_connect: "well_formed l \<Longrightarrow> well_formed (connect onTranscript onError origin l)"
  by (auto simp add: well_formed_def connect_def list_all_iff)

lemma well_formed_sendAudio: "well_formed l \<Longrightarrow> well_formed (fst (sendAudio audio l))"
proof -
  assume wf: "well_formed l"
  then have "well_formed (l\<lparr>isReconnecting := True\<rparr>)"
    by (simp add: well_formed_def)
  then have "well_formed (connect cb onError (Resend audio) (l\<lparr>isReconnecting := True\<rparr>))" for cb onError
    by (rule well_formed_connect)
  moreover have "well_formed (l\<lparr>wire := w\<rparr>)" for w
    using wf by (simp add: well_formed_def)
  ultimately show ?thesis
    using wf by (simp add: sendAudio_def split: option.splits)
qed

lemma well_formed_settle: "well_formed l \<Longrightarrow> well_formed (settle h l)"
  by (auto simp add: well_formed_def settle_def list_all_iff)

lemma well_formed_connect_returned:
  "well_formed l \<Longrightarrow> well_formed (fst (connect_returned connected origin l))"
proof -
  assume wf: "well_formed l"
  then have "well_formed (l\<lparr>isReconnecting := False\<rparr>)"
    by (simp add: well_formed_def)
  then show ?thesis
    using wf by (simp add: connect_returned_def Let_def well_formed_sendAudio split: origin.splits)
qed

lemma well_formed_disconnect: "well_formed l \<Longrightarrow> disconnect l = Inr l' \<Longrightarrow> well_formed l'"
  by (auto simp add: disconnect_def finish_connection_def well_formed_def
      split: option.splits if_splits)

lemma well_formed_stt_step: "well_formed l \<Longrightarrow> well_formed (fst (stt_step e l))"
proof (cases e)
  case (Open h)
  assume wf: "well_formed l"
  then have "well_formed ((settle h l)\<lparr>isConnected := True\<rparr>)"
    using well_formed_settle [of l h] by (simp add: well_formed_def)
  with wf Open show ?thesis
    by (simp add: well_formed_connect_returned split: option.splits)
next
  case (Failed h message)
  assume wf: "well_formed l"
  have "well_formed (fst (connect_returned False origin (settle h l)))" for origin
    by (rule well_formed_connect_returned [OF well_formed_settle [OF wf]])
  then have "connect_returned False origin (settle h l) = (l', calls) \<Longrightarrow> well_formed l'"
    for origin l' calls
    by (metis fst_conv)
  with wf Failed show ?thesis
    by (auto simp add: Let_def split: option.splits prod.splits)
next
  case (TimedOut h)
  assume wf: "well_formed l"
  have "well_formed (fst (connect_returned False origin (settle h l)))" for origin
    by (rule well_formed_connect_returned [OF well_formed_settle [OF wf]])
  then have "connect_returned False origin (settle h l) = (l', calls) \<Longrightarrow> well_formed l'"
    for origin l' calls
    by (metis fst_conv)
  with wf TimedOut show ?thesis
    by (auto simp add: Let_def split: option.splits prod.splits)
next
  case (Closed h)
  assume "well_formed l"
  with Closed show ?thesis by (simp add: well_formed_def)
next
  case TimerFired
  assume wf: "well_formed l"
  then have "well_formed (l\<lparr>timers := ts\<rparr>)" for ts
    by (simp add: well_formed_def)
  with TimerFired wf show ?thesis
    by (simp add: Let_def well_formed_connect split: list.splits option.splits)
next
  case (Result h d)
  assume "well_formed l"
  with Result show ?thesis
    by (simp add: Let_def split: option.splits)
qed

lemma stt_apply_well_formed: "well_formed l \<Longrightarrow> well_formed (fst (stt_apply a l))"
proof (cases a)
  case (CallConnect onTranscript onError)
  assume "well_formed l"
  with CallConnect show ?thesis by (simp add: well_formed_connect)
next
  case (CallSendAudio audio)
  assume "well_formed l"
  with CallSendAudio show ?thesis by (simp add: well_formed_sendAudio)
next
  case CallDisconnect
  assume "well_formed l"
  with CallDisconnect show ?thesis
    by (auto split: sum.splits dest: well_formed_disconnect)
next
  case (Event e)
  assume "well_formed l"
  with Event show ?thesis by (simp add: well_formed_stt_step)
qed

lemma fresh_not_promised: "well_formed l \<Longrightarrow> map_of (promises l) (fresh l) = None"
proof -
  assume "well_formed l"
  then have "fresh l \<notin> fst ` set (promises l)"
    by (auto simp add: well_formed_def list_all_iff)
  then show ?thesis
    by (simp add: map_of_eq_None_iff)
qed

lemma settle_fresh:
  "well_formed l \<Longrightarrow> filter (\<lambda>p. fst p \<noteq> fresh l) (promises l) = promises l"
  by (auto simp add: well_formed_def list_all_iff filter_id_conv)

lemma sendAudio_reconnects:
  assumes "\<not> isConnected l \<or> connection l = None"
    and "onTranscriptCallback l = Some cb" and "\<not> isReconnecting l"
  shows "sendAudio audio l =
           (connect cb (onErrorCallback l) (Resend audio) (l\<lparr>isReconnecting := True\<rparr>), [])"
  using assms by (auto simp add: sendAudio_def)

lemma sendAudio_discards:
  assumes "\<not> isConnected l \<or> connection l = None"
    and "onTranscriptCallback l = None \<or> isReconnecting l"
  shows "sendAudio audio l = (l, [])"
  using assms by (auto simp add: sendAudio_def split: option.splits)

lemma resend_on_open:
  assumes "well_formed l" and "fresh l \<notin> set (faulty l)"
  shows "stt_step (Open (fresh l))
           (connect cb onError (Resend audio) (l\<lparr>isReconnecting := True\<rparr>)) =
         (l\<lparr>isReconnecting := False, onTranscriptCallback := Some cb, onErrorCallback := onError,
            connection := Some (fresh l), fresh := Suc (fresh l), isConnected := True,
            wire := wire l @ [(fresh l, audio)]\<rparr>, [])"
proof -
  let ?c = "connect cb onError (Resend audio) (l\<lparr>isReconnecting := True\<rparr>)"
  from assms(1) have "map_of (promises ?c) (fresh l) = Some (Resend audio)"
    by (simp add: connect_def fresh_not_promised map_add_def)
  moreover from assms(1) have "promises (settle (fresh l) ?c) = promises l"
    by (simp add: settle_def connect_def settle_fresh)
  ultimately show ?thesis
    using assms(2)
    by (simp add: connect_returned_def Let_def sendAudio_def settle_def connect_def)
qed

text \<open>
  Claim C5, as amended.  A call of \<open>sendAudio\<close> on a link that is not connected starts
  a reconnect with the stored callbacks, carrying the buffer, when a transcript callback
  is stored and no reconnect started by \<open>sendAudio\<close> is under way; when the new
  connection opens, the buffer is sent on it.  Otherwise (no callback stored, or such a
  reconnect under way) the call changes nothing: the buffer is discarded, with a warning
  in the log only.
\<close>

theorem sendAudio_while_not_connected:
  assumes "\<not> isConnected l \<or> connection l = None"
  shows "(onTranscriptCallback l = Some cb \<and> \<not> isReconnecting l \<longrightarrow>
            sendAudio audio l =
              (connect cb (onErrorCallback l) (Resend audio) (l\<lparr>isReconnecting := True\<rparr>), []) \<and>
            (well_formed l \<and> fresh l \<notin> set (faulty l) \<longrightarrow>
               wire (fst (stt_step (Open (fresh l)) (fst (sendAudio audio l)))) =
                 wire l @ [(fresh l, audio)])) \<and>
         (onTranscriptCallback l = None \<or> isReconnecting l \<longrightarrow> sendAudio audio l = (l, []))"
proof -
  have first: "onTranscriptCallback l = Some cb \<and> \<not> isReconnecting l \<longrightarrow>
      sendAudio audio l =
        (connect cb (onErrorCallback l) (Resend audio) (l\<lparr>isReconnecting := True\<rparr>), []) \<and>
      (well_formed l \<and> fresh l \<notin> set (faulty l) \<longrightarrow>
         wire (fst (stt_step (Open (fresh l)) (fst (sendAudio audio l)))) =
           wire l @ [(fresh l, audio)])"
  proof
    assume a: "onTranscriptCallback l = Some cb \<and> \<not> isReconnecting l"
    with assms have eq: "sendAudio audio l =
        (connect cb (onErrorCallback l) (Resend audio) (l\<lparr>isReconnecting := True\<rparr>), [])"
      by (intro sendAudio_reconnects) simp_all
    have "well_formed l \<and> fresh l \<notin> set (faulty l) \<longrightarrow>
         wire (fst (stt_step (Open (fresh l)) (fst (sendAudio audio l)))) =
           wire l @ [(fresh l, audio)]"
    proof
      assume "well_formed l \<and> fresh l \<notin> set (faulty l)"
      then have "stt_step (Open (fresh l))
           (connect cb (onErrorCallback l) (Resend audio) (l\<lparr>isReconnecting := True\<rparr>)) =
         (l\<lparr>isReconnecting := False, onTranscriptCallback := Some cb,
            onErrorCallback := onErrorCallback l,
            connection := Some (fresh l), fresh := Suc (fresh l), isConnected := True,
            wire := wire l @ [(fresh l, audio)]\<rparr>, [])"
        by (intro resend_on_open) simp_all
      with eq show "wire (fst (stt_step (Open (fresh l)) (fst (sendAudio audio l)))) =
           wire l @ [(fresh l, audio)]"
        by simp
    qed
    with eq show "sendAudio audio l =
        (connect cb (onErrorCallback l) (Resend audio) (l\<lparr>isReconnecting := True\<rparr>), []) \<and>
      (well_formed l \<and> fresh l \<notin> set (faulty l) \<longrightarrow>
         wire (fst (stt_step (Open (fresh l)) (fst (sendAudio audio l)))) =
           wire l @ [(fresh l, audio)])"
      by blast
  qed
  have second: "onTranscriptCallback l = None \<or> isReconnecting l \<longrightarrow> sendAudio audio l = (l, [])"
    using assms sendAudio_discards [of l audio] by blast
  from first second show ?thesis
    by blast
qed


lemma unconnected_eq:
  "unconnected =
     \<lparr>connection = Some 0, isConnected = False, isReconnecting = False,
      onTranscriptCallback = Some (), onErrorCallback = None, fresh = 1, promises = [],
      timers = [], wire = [], finished = [], faulty = []\<rparr>"
  by (simp add: unconnected_def connect_def new_stt_def settle_def connect_returned_def report_def)

text \<open>
  Claim C5 as stated fails for the second of two buffers sent while the link is not
  connected: the first call starts the reconnect, the second finds \<open>isReconnecting\<close>
  set and returns with the link unchanged; after the connection has opened only the
  first buffer has been sent.
\<close>

theorem second_buffer_is_discarded_counterexample:
  "sendAudio [2] (fst (sendAudio [1] unconnected)) = (fst (sendAudio [1] unconnected), []) \<and>
   stt_run [CallSendAudio [1], CallSendAudio [2], Event (Open 1)] unconnected [] =
     (\<lparr>connection = Some 1, isConnected = True, isReconnecting = False,
       onTranscriptCallback = Some (), onErrorCallback = None, fresh = 2, promises = [],
       timers = [], wire = [(1, [1])], finished = [], faulty = []\<rparr>, [])"
  by (simp add: unconnected_eq sendAudio_def connect_def settle_def connect_returned_def)

theorem sendAudio_while_not_connected_witness:
  "isConnected unconnected = False \<and> onTranscriptCallback unconnected = Some () \<and>
   isReconnecting unconnected = False \<and> well_formed unconnected \<and>
   fresh unconnected \<notin> set (faulty unconnected) \<and>
   wire (fst (stt_step (Open (fresh unconnected)) (fst (sendAudio [1] unconnected)))) =
     wire unconnected @ [(fresh unconnected, [1])] \<and>
   isReconnecting (fst (sendAudio [1] unconnected)) \<and>
   sendAudio [2] (fst (sendAudio [1] unconnected)) = (fst (sendAudio [1] unconnected), [])"
proof -
  let ?l = "fst (sendAudio [1] unconnected)"
  have a: "isConnected unconnected = False" "onTranscriptCallback unconnected = Some ()"
    "isReconnecting unconnected = False" "well_formed unconnected"
    "fresh unconnected \<notin> set (faulty unconnected)"
    by (simp_all add: unconnected_eq well_formed_def)
  then have pre: "\<not> isConnected unconnected \<or> connection unconnected = None"
    by simp
  from sendAudio_while_not_connected [OF pre, of "()" "[1]"] a
  have b: "wire (fst (stt_step (Open (fresh unconnected)) ?l)) =
      wire unconnected @ [(fresh unconnected, [1])]"
    by blast
  have c: "isReconnecting ?l" "\<not> isConnected ?l"
    by (simp_all add: unconnected_eq sendAudio_def connect_def)
  then have pre': "\<not> isConnected ?l \<or> connection ?l = None"
    by simp
  from sendAudio_while_not_connected [OF pre', of _ "[2]"] c(1)
  have d: "sendAudio [2] ?l = (?l, [])"
    by blast
  from a b c(1) d show ?thesis
    by blast
qed

lemma storm_round:
  assumes "well_formed l" and "onTranscriptCallback l = Some cb" and "h < fresh l"
  shows "\<exists>l'. stt_run [Event (Closed h), Event TimerFired, Event (Failed (fresh l) ''refused'')] l calls =
           (l', calls @ report ''Deepgram STT error: refused'' l @ report ''Deepgram STT error: refused'' l) \<and>
         well_formed l' \<and> onTranscriptCallback l' = Some cb \<and>
         onErrorCallback l' = onErrorCallback l \<and> fresh l' = Suc (fresh l) \<and>
         connection l' = Some (fresh l) \<and> \<not> isConnected l' \<and> length (timers l') = length (timers l)"
proof -
  obtain d ds where ts: "timers l @ [100] = d # ds"
    by (cases "timers l @ [100]") simp_all
  then have len: "length ds = length (timers l)"
    by (metis length_Cons length_append_singleton nat.inject)
  let ?l1 = "l\<lparr>isConnected := False, timers := ds\<rparr>"
  let ?l2 = "connect cb (onErrorCallback l) Timer ?l1"
  have closed: "stt_step (Closed h) l = (l\<lparr>isConnected := False, timers := timers l @ [100]\<rparr>, [])"
    using assms(3) by simp
  have fired: "stt_step TimerFired (l\<lparr>isConnected := False, timers := timers l @ [100]\<rparr>) = (?l2, [])"
    using assms(2) ts by (simp add: Let_def)
  have wf1: "well_formed ?l1"
    using assms(1) by (simp add: well_formed_def)
  have look: "map_of (promises ?l2) (fresh l) = Some Timer"
    using fresh_not_promised [OF wf1] by (simp add: connect_def map_add_def)
  have settled: "settle (fresh l) ?l2 = ?l2\<lparr>promises := promises l\<rparr>"
    using settle_fresh [OF wf1] by (simp add: settle_def connect_def)
  have rep: "report m ?l2 = report m l" for m
    by (simp add: report_def connect_def)
  have failed: "stt_step (Failed (fresh l) ''refused'') ?l2 =
      (?l2\<lparr>promises := promises l\<rparr>,
       report ''Deepgram STT error: refused'' l @ report ''Deepgram STT error: refused'' l)"
    using look settled rep by (simp add: Let_def connect_returned_def) (simp add: connect_def)
  let ?l' = "?l2\<lparr>promises := promises l\<rparr>"
  have run: "stt_run [Event (Closed h), Event TimerFired, Event (Failed (fresh l) ''refused'')] l calls =
      (?l', calls @ report ''Deepgram STT error: refused'' l @ report ''Deepgram STT error: refused'' l)"
    using closed fired failed by simp
  have "well_formed ?l'"
    using assms(1) by (auto simp add: well_formed_def connect_def list_all_iff)
  moreover have "onTranscriptCallback ?l' = Some cb" "onErrorCallback ?l' = onErrorCallback l"
    "fresh ?l' = Suc (fresh l)" "connection ?l' = Some (fresh l)" "\<not> isConnected ?l'"
    "length (timers ?l') = length (timers l)"
    using len by (simp_all add: connect_def)
  ultimately show ?thesis
    using run by blast
qed

lemma stt_run_append:
  "stt_run (xs @ ys) l calls = (case stt_run xs l calls of (l', calls') \<Rightarrow> stt_run ys l' calls')"
  by (induction xs arbitrary: l calls) (simp_all split: prod.splits)

lemma storm_run:
  assumes "well_formed l" and "onTranscriptCallback l = Some cb" and "h < fresh l"
  shows "\<exists>l'. stt_run (storm k h (fresh l)) l calls =
           (l', calls @ concat (replicate k
                  (report ''Deepgram STT error: refused'' l @
                   report ''Deepgram STT error: refused'' l))) \<and>
         well_formed l' \<and> onTranscriptCallback l' = Some cb \<and>
         onErrorCallback l' = onErrorCallback l \<and> fresh l' = fresh l + k"
  using assms
proof (induction k arbitrary: l h calls)
  case 0
  then show ?case by simp
next
  case (Suc k)
  let ?r = "report ''Deepgram STT error: refused'' l @ report ''Deepgram STT error: refused'' l"
  let ?round = "[Event (Closed h), Event TimerFired, Event (Failed (fresh l) ''refused'')]"
  from storm_round [OF Suc.prems, of calls] obtain l1 where
    l1: "stt_run ?round l calls = (l1, calls @ ?r)"
      "well_formed l1" "onTranscriptCallback l1 = Some cb"
      "onErrorCallback l1 = onErrorCallback l" "fresh l1 = Suc (fresh l)"
    by blast
  from l1(5) have lt: "fresh l < fresh l1" by simp
  from Suc.IH [OF l1(2) l1(3) lt, of "calls @ ?r"] obtain l' where
    l': "stt_run (storm k (fresh l) (fresh l1)) l1 (calls @ ?r) =
           (l', (calls @ ?r) @ concat (replicate k
                  (report ''Deepgram STT error: refused'' l1 @
                   report ''Deepgram STT error: refused'' l1)))"
      "well_formed l'" "onTranscriptCallback l' = Some cb"
      "onErrorCallback l' = onErrorCallback l1" "fresh l' = fresh l1 + k"
    by blast
  have rep: "report m l1 = report m l" for m
    by (simp add: report_def l1(4))
  have unroll: "storm (Suc k) h (fresh l) = ?round @ storm k (fresh l) (fresh l1)"
    by (simp add: l1(5))
  have "stt_run (?round @ storm k (fresh l) (fresh l1)) l calls =
      (case stt_run ?round l calls of (l', calls') \<Rightarrow>
         stt_run (storm k (fresh l) (fresh l1)) l' calls')"
    by (rule stt_run_append)
  also have "\<dots> = stt_run (storm k (fresh l) (fresh l1)) l1 (calls @ ?r)"
    by (simp only: l1(1) prod.case)
  finally have "stt_run (storm (Suc k) h (fresh l)) l calls =
      stt_run (storm k (fresh l) (fresh l1)) l1 (calls @ ?r)"
    by (simp only: unroll)
  with l'(1) have "stt_run (storm (Suc k) h (fresh l)) l calls =
      (l', calls @ concat (replicate (Suc k) ?r))"
    by (simp add: rep)
  with l'(2,3,4,5) l1(4,5) show ?case
    by simp
qed

text \<open>
  Claim C4, as amended.  When a connection of the link closes, the \<open>Close\<close> handler
  marks the link as not connected and sets a timer of 100 ms; when the timer fires,
  \<open>connect\<close> is called with the stored callbacks, which stay as they were.  The number
  of these retries has no bound: against a remote end that closes every connection and
  fails every new one, \<open>k\<close> rounds make \<open>k\<close> further connection attempts, for every
  \<open>k\<close>; each failure invokes the error callback (twice), and the link goes on.
\<close>

theorem reconnect_follows_every_close:
  assumes "well_formed l" and "onTranscriptCallback l = Some cb" and "h < fresh l"
  shows "stt_step (Closed h) l = (l\<lparr>isConnected := False, timers := timers l @ [100]\<rparr>, []) \<and>
    (timers l = [] \<longrightarrow>
       stt_step TimerFired (fst (stt_step (Closed h) l)) =
         (connect cb (onErrorCallback l) Timer (l\<lparr>isConnected := False, timers := []\<rparr>), [])) \<and>
    fresh (fst (stt_run (storm k h (fresh l)) l [])) = fresh l + k \<and>
    onTranscriptCallback (fst (stt_run (storm k h (fresh l)) l [])) = Some cb \<and>
    onErrorCallback (fst (stt_run (storm k h (fresh l)) l [])) = onErrorCallback l \<and>
    snd (stt_run (storm k h (fresh l)) l []) =
      concat (replicate k (report ''Deepgram STT error: refused'' l @
                           report ''Deepgram STT error: refused'' l))"
proof -
  have closed: "stt_step (Closed h) l = (l\<lparr>isConnected := False, timers := timers l @ [100]\<rparr>, [])"
    using assms(3) by simp
  have fired: "timers l = [] \<longrightarrow>
       stt_step TimerFired (fst (stt_step (Closed h) l)) =
         (connect cb (onErrorCallback l) Timer (l\<lparr>isConnected := False, timers := []\<rparr>), [])"
    using assms(2,3) by (simp add: Let_def)
  from storm_run [OF assms, of k "[]"] obtain l' where
    "stt_run (storm k h (fresh l)) l [] =
       (l', concat (replicate k (report ''Deepgram STT error: refused'' l @
                                 report ''Deepgram STT error: refused'' l)))"
    "onTranscriptCallback l' = Some cb" "onErrorCallback l' = onErrorCallback l"
    "fresh l' = fresh l + k"
    by auto
  with closed fired show ?thesis
    by simp
qed

lemma listening_link:
  "deepgramSTT listening =
     \<lparr>connection = Some 0, isConnected = True, isReconnecting = False,
      onTranscriptCallback = Some (), onErrorCallback = Some (), fresh = 1, promises = [],
      timers = [], wire = [], finished = [], faulty = []\<rparr>"
  by (simp add: listening_eq)

text \<open>
  Claim C4 as stated fails: no number bounds the connection attempts of a link whose
  remote end keeps closing.
\<close>

theorem reconnect_storm_counterexample:
  "\<not> (\<exists>N. \<forall>k. fresh (fst (stt_run (storm k 0 1) (deepgramSTT listening) [])) \<le> N)"
proof
  assume "\<exists>N. \<forall>k. fresh (fst (stt_run (storm k 0 1) (deepgramSTT listening) [])) \<le> N"
  then obtain N where
    bound: "\<forall>k. fresh (fst (stt_run (storm k 0 1) (deepgramSTT listening) [])) \<le> N"
    by blast
  have wf: "well_formed (deepgramSTT listening)"
    and cb: "onTranscriptCallback (deepgramSTT listening) = Some ()"
    and h: "0 < fresh (deepgramSTT listening)"
    and f: "fresh (deepgramSTT listening) = 1"
    by (simp_all add: listening_link well_formed_def)
  from storm_run [OF wf cb h, of N "[]"]
  have "fresh (fst (stt_run (storm N 0 1) (deepgramSTT listening) [])) = 1 + N"
    by (auto simp add: f)
  with bound show False
    by (metis Suc_n_not_le_n plus_1_eq_Suc)
qed

theorem reconnect_follows_every_close_witness:
  "well_formed (deepgramSTT listening) \<and>
   onTranscriptCallback (deepgramSTT listening) = Some () \<and>
   0 < fresh (deepgramSTT listening) \<and> timers (deepgramSTT listening) = [] \<and>
   fresh (fst (stt_run (storm 3 0 1) (deepgramSTT listening) [])) = 4 \<and>
   snd (stt_run (storm 3 0 1) (deepgramSTT listening) []) =
     replicate 6 (ErrorCall () ''Deepgram STT error: refused'') \<and>
   connection (fst (stt_step TimerFired (fst (stt_step (Closed 0) (deepgramSTT listening))))) = Some 1"
proof -
  let ?l = "deepgramSTT listening"
  have wf: "well_formed ?l" and cb: "onTranscriptCallback ?l = Some ()"
    and h: "0 < fresh ?l" and f: "fresh ?l = 1" and t: "timers ?l = []"
    by (simp_all add: listening_link well_formed_def)
  note main = reconnect_follows_every_close [OF wf cb h, of 3]
  from main have a: "fresh (fst (stt_run (storm 3 0 1) ?l [])) = 4"
    by (simp add: f)
  have "report ''Deepgram STT error: refused'' ?l = [ErrorCall () ''Deepgram STT error: refused'']"
    by (simp add: report_def listening_link)
  with main have b: "snd (stt_run (storm 3 0 1) ?l []) =
      replicate 6 (ErrorCall () ''Deepgram STT error: refused'')"
    by (simp add: f numeral_3_eq_3 eval_nat_numeral)
  from main t have "stt_step TimerFired (fst (stt_step (Closed 0) ?l)) =
      (connect () (onErrorCallback ?l) Timer (?l\<lparr>isConnected := False, timers := []\<rparr>), [])"
    by blast
  then have c: "connection (fst (stt_step TimerFired (fst (stt_step (Closed 0) ?l)))) = Some 1"
    by (simp add: connect_def f)
  from wf cb h t a b c show ?thesis
    by blast
qed

text \<open>
  The \<open>Close\<close> handler does not tell an explicit \<open>disconnect\<close> from a remote close:
  the \<open>Close\<close> event that follows \<open>finish\<close> sets the timer as well, and the link
  connects again.
\<close>

lemma close_after_disconnect_reconnects:
  "stt_run [CallDisconnect, Event (Closed 0), Event TimerFired, Event (Open 1)]
     (deepgramSTT listening) [] =
   (\<lparr>connection = Some 1, isConnected = True, isReconnecting = False,
     onTranscriptCallback = Some (), onErrorCallback = Some (), fresh = 2, promises = [],
     timers = [], wire = [], finished = [0], faulty = []\<rparr>, [])"
  by (simp add: listening_link disconnect_def finish_connection_def connect_def settle_def
      connect_returned_def Let_def)

end
